theory Spec2Isabelle
  imports Complex_Main "HOL-Library.Sublist"
begin

section \<open>OBBPD: the crash-isolation engine of \<^verbatim>\<open>OBBPD.py\<close>\<close>

text \<open>
  The program finds the plugins that crash a game by launching the game on trial load
  orders. Everything the program learns from the outside world in one trial (whether the
  order file could be written, whether the game launched, whether it crashed, whether the
  operator paused and what was chosen then) is one value of \<open>outcome\<close>, supplied by an
  environment. The lists \<open>safe\<close>, \<open>tested\<close> and \<open>failed\<close> that the Python mutates in place
  are fields of a state record that every function takes and returns.
\<close>

subsection \<open>Plugin names\<close>

text \<open>
  Plugin names are Python strings, compared exactly by \<^verbatim>\<open>in\<close> and through the key
  \<^verbatim>\<open>p.lower().strip()\<close> when a load order is deduplicated. A string of the model is a
  list of characters with the code points 0 to 255. On these, \<^verbatim>\<open>str.lower\<close> maps
  \<^verbatim>\<open>A\<close>..\<^verbatim>\<open>Z\<close> (65 to 90) and the capital letters 192 to 214 and 216 to 222 to the
  character 32 places further on and leaves every other character alone, and the
  whitespace that \<^verbatim>\<open>strip()\<close> removes is that of \<^verbatim>\<open>str.isspace\<close>: the codes 9 to 13,
  28 to 32, 133 (next line) and 160 (no-break space).
\<close>

definition lower_char :: "char \<Rightarrow> char" where
  "lower_char ch =
     (let n = (of_char ch :: nat) in
      if (65 \<le> n \<and> n \<le> 90) \<or> (192 \<le> n \<and> n \<le> 214) \<or> (216 \<le> n \<and> n \<le> 222)
      then char_of (n + 32) else ch)"

definition lower :: "string \<Rightarrow> string" where
  "lower p = map lower_char p"

definition isspace :: "char \<Rightarrow> bool" where
  "isspace ch =
     (let n = (of_char ch :: nat) in
      (9 \<le> n \<and> n \<le> 13) \<or> (28 \<le> n \<and> n \<le> 32) \<or> n = 133 \<or> n = 160)"

definition lstrip :: "string \<Rightarrow> string" where
  "lstrip p = dropWhile isspace p"

definition rstrip :: "string \<Rightarrow> string" where
  "rstrip p = rev (dropWhile isspace (rev p))"

definition strip :: "string \<Rightarrow> string" where
  "strip p = rstrip (lstrip p)"

subsection \<open>Configuration\<close>

text \<open>
  \<^verbatim>\<open>REQUIRED_PLUGINS\<close>, \<^verbatim>\<open>OPTIONAL_PATCHES\<close> and \<^verbatim>\<open>BATCH_SIZE\<close> are module-level values read
  from the configuration file. \<open>backup_plugins\<close> is what \<^verbatim>\<open>get_total_plugins\<close> reads from
  the backup of the original plugins file; the re-test pass reads it again for every
  plugin, and the file does not change in between.
\<close>

record config =
  REQUIRED_PLUGINS :: "string list"
  OPTIONAL_PATCHES :: "string list"
  BATCH_SIZE :: int
  backup_plugins :: "string list"

subsection \<open>\<^verbatim>\<open>get_batch_size\<close> and the sub-batches of a batch\<close>

definition get_batch_size :: "nat \<Rightarrow> nat" where
  "get_batch_size sz =
     (if sz \<ge> 200 then 25 else
      if sz \<ge> 150 then 20 else
      if sz \<ge> 100 then 15 else
      if sz \<ge> 50 then 10 else
      if sz \<ge> 20 then 5 else
      if sz \<ge> 10 then 3 else
      if sz \<ge> 5 then 2 else
      1)"

text \<open>
  \<^verbatim>\<open>for i in range(0, size, sub_size): sub = batch[i : i + sub_size]\<close> visits the
  consecutive slices of the batch; \<open>sub_batches\<close> lists them in the order of the loop.
  A step of 0 makes \<^verbatim>\<open>range\<close> raise; \<^verbatim>\<open>get_batch_size\<close> never returns it.
\<close>

function sub_batches :: "nat \<Rightarrow> 'a list \<Rightarrow> 'a list list" where
  "sub_batches sub_size batch =
     (if batch = [] \<or> sub_size = 0 then []
      else take sub_size batch # sub_batches sub_size (drop sub_size batch))"
  by pat_completeness auto
termination
  by (relation "measure (\<lambda>(sub_size, batch). length batch)") auto

declare sub_batches.simps [simp del]

subsection \<open>Load orders\<close>

text \<open>
  Every trial writes \<^verbatim>\<open>REQUIRED_PLUGINS + OPTIONAL_PATCHES\<close>, then the safe plugins not
  among them, then the plugins under test, deduplicated by the key. \<^verbatim>\<open>run_batch\<close> keeps
  an entry \<^verbatim>\<open>if key and key not in seen\<close>; turbo mode keeps it
  \<^verbatim>\<open>if pl not in seen and p\<close>.
\<close>

fun dedupe_key :: "string list \<Rightarrow> string list \<Rightarrow> string list" where
  "dedupe_key seen [] = []"
| "dedupe_key seen (p # ps) =
     (let key = strip (lower p) in
      if key \<noteq> [] \<and> key \<notin> set seen then p # dedupe_key (key # seen) ps
      else dedupe_key seen ps)"

fun dedupe_turbo :: "string list \<Rightarrow> string list \<Rightarrow> string list" where
  "dedupe_turbo seen [] = []"
| "dedupe_turbo seen (p # ps) =
     (let pl = strip (lower p) in
      if pl \<notin> set seen \<and> p \<noteq> [] then p # dedupe_turbo (pl # seen) ps
      else dedupe_turbo seen ps)"

definition baseline :: "config \<Rightarrow> string list \<Rightarrow> string list" where
  "baseline c safe_now =
     (let ordered = REQUIRED_PLUGINS c @ OPTIONAL_PATCHES c in
      ordered @ [p \<leftarrow> safe_now. p \<notin> set ordered])"

definition batch_order :: "config \<Rightarrow> string list \<Rightarrow> string list \<Rightarrow> string list" where
  "batch_order c safe_now batch = dedupe_key [] (baseline c safe_now @ batch)"

definition turbo_order :: "config \<Rightarrow> string list \<Rightarrow> string list \<Rightarrow> string list" where
  "turbo_order c safe_now batch = dedupe_turbo [] (baseline c safe_now @ batch)"

text \<open>
  The re-test pass puts the safe plugins in the order of the backup file, so a safe
  plugin that the backup does not list is written only if it is required or optional.
\<close>

definition recheck_order :: "config \<Rightarrow> string list \<Rightarrow> string \<Rightarrow> string list" where
  "recheck_order c safe_now plugin =
     (let safe_in_backup_order = [p \<leftarrow> backup_plugins c. p \<in> set safe_now];
          ordered = REQUIRED_PLUGINS c @ OPTIONAL_PATCHES c
      in dedupe_turbo [] (ordered @ [p \<leftarrow> safe_in_backup_order. p \<notin> set ordered] @ [plugin]))"

text \<open>
  What the order file of a trial has to hold, said without the loops: \<open>load_order kept xs r\<close>
  says that \<open>r\<close> is the list \<open>xs\<close> deduplicated by the key \<^verbatim>\<open>p.lower().strip()\<close>. The entries
  of \<open>r\<close> are entries of \<open>xs\<close> in the order of \<open>xs\<close>, no two of them have the same key, and
  each of them passes the test \<open>kept\<close> of the loop; every entry of \<open>xs\<close> that passes the test
  has its key in \<open>r\<close>; and of the entries with one key it is the first that is written.
\<close>

definition key_of :: "string \<Rightarrow> string" where
  "key_of p = strip (lower p)"

definition load_order :: "(string \<Rightarrow> bool) \<Rightarrow> string list \<Rightarrow> string list \<Rightarrow> bool" where
  "load_order kept xs r \<longleftrightarrow>
     subseq r xs \<and> distinct (map key_of r) \<and> (\<forall>p \<in> set r. kept p) \<and>
     (\<forall>p \<in> set xs. kept p \<longrightarrow> key_of p \<in> key_of ` set r) \<and>
     (\<forall>ys p zs. xs = ys @ p # zs \<and> kept p \<and> key_of p \<notin> key_of ` {q \<in> set ys. kept q} \<longrightarrow>
        p \<in> set r)"

subsection \<open>Trials and their outcomes\<close>

text \<open>
  One attempt at a trial goes through writing the order file, \<^verbatim>\<open>launch_game\<close> and
  \<^verbatim>\<open>wait_and_check_crash\<close>:
  \<^item> \<open>WriteFailed\<close>: the order file could not be written;
  \<^item> \<open>LaunchFailed\<close>: \<^verbatim>\<open>launch_game()\<close> returned \<^verbatim>\<open>False\<close>;
  \<^item> \<open>Passed\<close>, \<open>Crashed\<close>: \<^verbatim>\<open>wait_and_check_crash()\<close> returned \<^verbatim>\<open>False\<close>, \<^verbatim>\<open>True\<close>;
  \<^item> \<open>PausedResume\<close>: the operator pressed a key and chose R, so
    \<^verbatim>\<open>check_for_manual_pause\<close> raised \<^verbatim>\<open>RuntimeError("manual_pause_triggered")\<close>;
  \<^item> \<open>PausedExit\<close>: the operator chose V or Q, and \<^verbatim>\<open>sys.exit(0)\<close> ended the program.
\<close>

datatype outcome = WriteFailed | LaunchFailed | Passed | Crashed | PausedResume | PausedExit

datatype level = Batch | SubBatch | Singleton | Mega | Recheck

record trial =
  level :: level
  part :: "string list"
  order :: "string list"
  verdict :: outcome

text \<open>
  The environment answers the \<open>n\<close>-th attempt of the run on a given load order, and holds
  the operator's answer to the offer to re-test the failed plugins.
\<close>

record env =
  answer :: "nat \<Rightarrow> string list \<Rightarrow> outcome"
  retest :: bool

text \<open>
  \<open>remaining\<close> is the local list of turbo mode; \<^verbatim>\<open>run_batch\<close> has no such list and leaves
  the field alone. \<open>trials\<close> is the history of the attempts made, for the proofs only.
\<close>

record state =
  safe :: "string list"
  tested :: "string list"
  failed :: "string list"
  remaining :: "string list"
  trials :: "trial list"

definition attempt :: "env \<Rightarrow> level \<Rightarrow> string list \<Rightarrow> string list \<Rightarrow> state \<Rightarrow> outcome \<times> state" where
  "attempt e lv ps ord s =
     (let v = answer e (length (trials s)) ord in
      (v, s\<lparr>trials := trials s @ [\<lparr>level = lv, part = ps, order = ord, verdict = v\<rparr>]\<rparr>))"

text \<open>How a function of the program ended: it returned, or \<^verbatim>\<open>sys.exit\<close> ended the program.\<close>

datatype status = Returned | Exited

subsection \<open>\<^verbatim>\<open>run_batch\<close>\<close>

definition extend_safe :: "string list \<Rightarrow> state \<Rightarrow> state" where
  \<comment> \<open>\<^verbatim>\<open>safe.extend(batch); tested.extend(batch)\<close>\<close>
  "extend_safe batch s = s\<lparr>safe := safe s @ batch, tested := tested s @ batch\<rparr>"

definition append_new :: "string \<Rightarrow> string list \<Rightarrow> string list" where
  \<comment> \<open>\<^verbatim>\<open>if plugin not in xs: xs.append(plugin)\<close>\<close>
  "append_new plugin xs = (if plugin \<in> set xs then xs else xs @ [plugin])"

definition mark_failed :: "string \<Rightarrow> state \<Rightarrow> state" where
  "mark_failed plugin s =
     s\<lparr>failed := append_new plugin (failed s), tested := append_new plugin (tested s)\<rparr>"

definition mark_safe :: "string \<Rightarrow> state \<Rightarrow> state" where
  "mark_safe plugin s =
     s\<lparr>safe := append_new plugin (safe s), tested := append_new plugin (tested s)\<rparr>"

text \<open>
  The innermost loop, \<^verbatim>\<open>for plugin in sub\<close>: a failed write skips the plugin
  (\<^verbatim>\<open>continue\<close>), a failed launch leaves the loop (\<^verbatim>\<open>break\<close>), and a pause that the
  operator resumes sets \<^verbatim>\<open>one_crash = True\<close>.
\<close>

fun single_loop :: "config \<Rightarrow> env \<Rightarrow> string list \<Rightarrow> state \<Rightarrow> state \<times> status" where
  "single_loop c e [] s = (s, Returned)"
| "single_loop c e (plugin # rest) s =
     (case attempt e Singleton [plugin] (batch_order c (safe s) [plugin]) s of
        (WriteFailed, s1) \<Rightarrow> single_loop c e rest s1
      | (LaunchFailed, s1) \<Rightarrow> (s1, Returned)
      | (PausedExit, s1) \<Rightarrow> (s1, Exited)
      | (Passed, s1) \<Rightarrow> single_loop c e rest (mark_safe plugin s1)
      | (Crashed, s1) \<Rightarrow> single_loop c e rest (mark_failed plugin s1)
      | (PausedResume, s1) \<Rightarrow> single_loop c e rest (mark_failed plugin s1))"

text \<open>
  The loop over the sub-batches. A failed launch leaves the loop, which ends
  \<^verbatim>\<open>run_batch\<close>. A sub-batch that crashed is failed at once when it has one plugin, and
  is tested plugin by plugin otherwise.
\<close>

fun sub_loop :: "config \<Rightarrow> env \<Rightarrow> string list list \<Rightarrow> state \<Rightarrow> state \<times> status" where
  "sub_loop c e [] s = (s, Returned)"
| "sub_loop c e (sub # rest) s =
     (case attempt e SubBatch sub (batch_order c (safe s) sub) s of
        (WriteFailed, s1) \<Rightarrow> sub_loop c e rest s1
      | (LaunchFailed, s1) \<Rightarrow> (s1, Returned)
      | (PausedExit, s1) \<Rightarrow> (s1, Exited)
      | (Passed, s1) \<Rightarrow> sub_loop c e rest (extend_safe sub s1)
      | (_, s1) \<Rightarrow>
          (case sub of
             [plugin] \<Rightarrow> sub_loop c e rest (mark_failed plugin s1)
           | _ \<Rightarrow>
               (case single_loop c e sub s1 of
                  (s2, Exited) \<Rightarrow> (s2, Exited)
                | (s2, Returned) \<Rightarrow> sub_loop c e rest s2)))"

text \<open>
  \<^verbatim>\<open>run_batch\<close> calls itself when the operator resumes after a pause of the batch trial,
  so it need not return; the first argument bounds the number of such calls, and
  \<open>None\<close> says the bound was reached.
\<close>

fun run_batch :: "nat \<Rightarrow> config \<Rightarrow> env \<Rightarrow> string list \<Rightarrow> state \<Rightarrow> (state \<times> status) option" where
  "run_batch 0 c e batch s = None"
| "run_batch (Suc fuel) c e batch s =
     (case attempt e Batch batch (batch_order c (safe s) batch) s of
        (WriteFailed, s1) \<Rightarrow> Some (s1, Returned)
      | (LaunchFailed, s1) \<Rightarrow> Some (s1, Returned)
      | (PausedResume, s1) \<Rightarrow> run_batch fuel c e batch s1
      | (PausedExit, s1) \<Rightarrow> Some (s1, Exited)
      | (Passed, s1) \<Rightarrow> Some (extend_safe batch s1, Returned)
      | (Crashed, s1) \<Rightarrow>
          Some (sub_loop c e (sub_batches (get_batch_size (length batch)) batch) s1))"

subsection \<open>\<^verbatim>\<open>turbo_batch_mode\<close>\<close>

text \<open>
  How a loop of turbo mode ended: it ran to its end (\<open>Next\<close>), a \<^verbatim>\<open>break\<close> left the
  \<^verbatim>\<open>while\<close> loop (\<open>Break\<close>), a mega batch passed and the function went on to its end from
  inside the loops (\<open>MegaDone\<close>), or \<^verbatim>\<open>sys.exit\<close> ended the program (\<open>Quit\<close>).
\<close>

datatype flow = Next | Break | MegaDone | Quit

definition slice_to :: "int \<Rightarrow> 'a list \<Rightarrow> 'a list" where
  \<comment> \<open>\<^verbatim>\<open>xs[:n]\<close>; a negative \<open>n\<close> counts from the end\<close>
  "slice_to n xs = (if 0 \<le> n then take (nat n) xs else take (length xs - nat (- n)) xs)"

definition mark_all_safe :: "string list \<Rightarrow> state \<Rightarrow> state" where
  \<comment> \<open>\<^verbatim>\<open>for p in batch: if p not in safe: safe.append(p); if p not in tested: tested.append(p)\<close>\<close>
  "mark_all_safe batch s = fold mark_safe batch s"

definition drop_safe :: "state \<Rightarrow> state" where
  \<comment> \<open>\<^verbatim>\<open>remaining = [p for p in remaining if p not in safe]\<close>\<close>
  "drop_safe s = s\<lparr>remaining := [p \<leftarrow> remaining s. p \<notin> set (safe s)]\<rparr>"

definition turbo_remaining :: "state \<Rightarrow> string list" where
  \<comment> \<open>\<^verbatim>\<open>[p for p in remaining if p not in failed and p not in safe]\<close>\<close>
  "turbo_remaining s = [p \<leftarrow> remaining s. p \<notin> set (failed s) \<and> p \<notin> set (safe s)]"

definition drop_classified :: "state \<Rightarrow> state" where
  "drop_classified s = s\<lparr>remaining := turbo_remaining s\<rparr>"

text \<open>
  The mega batch that follows every failed single plugin. A failed write or launch goes
  on with the next single plugin (\<^verbatim>\<open>continue\<close>); so does a crash, and a pause that the
  operator resumes sets \<^verbatim>\<open>mega_crash = True\<close>.
\<close>

definition mega_batch :: "config \<Rightarrow> env \<Rightarrow> state \<Rightarrow> state \<times> flow" where
  "mega_batch c e s =
     (let rem = turbo_remaining s in
      if rem = [] then (s, Next)
      else
        (case attempt e Mega rem (turbo_order c (safe s) rem) s of
           (Passed, s1) \<Rightarrow> ((mark_all_safe rem s1)\<lparr>remaining := []\<rparr>, MegaDone)
         | (PausedExit, s1) \<Rightarrow> (s1, Quit)
         | (_, s1) \<Rightarrow> (s1, Next)))"

fun turbo_single_loop :: "config \<Rightarrow> env \<Rightarrow> string list \<Rightarrow> state \<Rightarrow> state \<times> flow" where
  "turbo_single_loop c e [] s = (s, Next)"
| "turbo_single_loop c e (plugin # rest) s =
     (case attempt e Singleton [plugin] (turbo_order c (safe s) [plugin]) s of
        (WriteFailed, s1) \<Rightarrow> turbo_single_loop c e rest s1
      | (LaunchFailed, s1) \<Rightarrow> turbo_single_loop c e rest s1
      | (PausedExit, s1) \<Rightarrow> (s1, Quit)
      | (Passed, s1) \<Rightarrow> turbo_single_loop c e rest (mark_safe plugin s1)
      | (_, s1) \<Rightarrow>
          (case mega_batch c e (mark_failed plugin s1) of
             (s2, Next) \<Rightarrow> turbo_single_loop c e rest s2
           | (s2, fl) \<Rightarrow> (s2, fl)))"

fun turbo_sub_loop :: "config \<Rightarrow> env \<Rightarrow> string list list \<Rightarrow> state \<Rightarrow> state \<times> flow" where
  "turbo_sub_loop c e [] s = (s, Next)"
| "turbo_sub_loop c e (sub # rest) s =
     (case attempt e SubBatch sub (turbo_order c (safe s) sub) s of
        (WriteFailed, s1) \<Rightarrow> turbo_sub_loop c e rest s1
      | (LaunchFailed, s1) \<Rightarrow> turbo_sub_loop c e rest s1
      | (PausedExit, s1) \<Rightarrow> (s1, Quit)
      | (Passed, s1) \<Rightarrow> turbo_sub_loop c e rest (drop_safe (mark_all_safe sub s1))
      | (_, s1) \<Rightarrow>
          (case turbo_single_loop c e sub s1 of
             (s2, Next) \<Rightarrow> turbo_sub_loop c e rest (drop_classified s2)
           | (s2, fl) \<Rightarrow> (s2, fl)))"

text \<open>
  \<^verbatim>\<open>while remaining\<close> need not end (a pause that is resumed, or a sub-batch whose write
  fails, leaves \<open>remaining\<close> as it was), so the first argument bounds the number of
  iterations and \<open>None\<close> says the bound was reached.
\<close>

fun turbo_loop :: "nat \<Rightarrow> config \<Rightarrow> env \<Rightarrow> state \<Rightarrow> (state \<times> flow) option" where
  "turbo_loop 0 c e s = None"
| "turbo_loop (Suc fuel) c e s =
     (if remaining s = [] then Some (s, Next)
      else
        (let batch = slice_to (BATCH_SIZE c) (remaining s) in
         case attempt e Batch batch (turbo_order c (safe s) batch) s of
           (WriteFailed, s1) \<Rightarrow> Some (s1, Break)
         | (LaunchFailed, s1) \<Rightarrow> Some (s1, Break)
         | (PausedResume, s1) \<Rightarrow> turbo_loop fuel c e s1
         | (PausedExit, s1) \<Rightarrow> Some (s1, Quit)
         | (Passed, s1) \<Rightarrow> turbo_loop fuel c e (drop_safe (mark_all_safe batch s1))
         | (Crashed, s1) \<Rightarrow>
             (case turbo_sub_loop c e (sub_batches (get_batch_size (length batch)) batch) s1 of
                (s2, Next) \<Rightarrow> turbo_loop fuel c e s2
              | (s2, fl) \<Rightarrow> Some (s2, fl))))"

text \<open>
  The re-test of the failed plugins. One iteration of \<^verbatim>\<open>for plugin in failed\<close> works on
  the local list \<^verbatim>\<open>refailed\<close> and on \<open>safe\<close>; \<open>failed\<close> itself is replaced by
  \<^verbatim>\<open>failed[:] = refailed\<close> when the loop is over.
\<close>

definition recheck_one :: "config \<Rightarrow> env \<Rightarrow> string \<Rightarrow> string list \<times> state \<Rightarrow> (string list \<times> state) \<times> status" where
  "recheck_one c e plugin rs =
     (case rs of (refailed, s) \<Rightarrow>
        (case attempt e Recheck [plugin] (recheck_order c (safe s) plugin) s of
           (Passed, s1) \<Rightarrow> ((refailed, s1\<lparr>safe := safe s1 @ [plugin]\<rparr>), Returned)
         | (PausedExit, s1) \<Rightarrow> ((refailed, s1), Exited)
         | (_, s1) \<Rightarrow> ((refailed @ [plugin], s1), Returned)))"

fun recheck_loop :: "config \<Rightarrow> env \<Rightarrow> string list \<Rightarrow> string list \<times> state \<Rightarrow> (string list \<times> state) \<times> status" where
  "recheck_loop c e [] rs = (rs, Returned)"
| "recheck_loop c e (plugin # rest) rs =
     (case recheck_one c e plugin rs of
        (rs1, Returned) \<Rightarrow> recheck_loop c e rest rs1
      | (rs1, Exited) \<Rightarrow> (rs1, Exited))"

definition post_pass :: "config \<Rightarrow> env \<Rightarrow> state \<Rightarrow> state \<times> status" where
  "post_pass c e s =
     (if failed s \<noteq> [] \<and> retest e then
        (case recheck_loop c e (failed s) ([], s) of
           ((refailed, s1), Returned) \<Rightarrow> (s1\<lparr>failed := refailed\<rparr>, Returned)
         | ((refailed, s1), Exited) \<Rightarrow> (s1, Exited))
      else (s, Returned))"

definition turbo_start :: "config \<Rightarrow> string list \<Rightarrow> string list \<Rightarrow> string list \<Rightarrow> state" where
  \<comment> \<open>the state before the \<^verbatim>\<open>while\<close> loop\<close>
  "turbo_start c to_test patch_plugins safe0 =
     mark_all_safe (REQUIRED_PLUGINS c @ OPTIONAL_PATCHES c)
       \<lparr>safe = safe0, tested = [], failed = [], remaining = to_test @ patch_plugins, trials = []\<rparr>"

definition turbo_batch_mode ::
  "nat \<Rightarrow> config \<Rightarrow> env \<Rightarrow> string list \<Rightarrow> string list \<Rightarrow> string list \<Rightarrow> (state \<times> flow) option" where
  "turbo_batch_mode fuel c e to_test patch_plugins safe0 =
     (case turbo_loop fuel c e (turbo_start c to_test patch_plugins safe0) of
        None \<Rightarrow> None
      | Some (s1, Quit) \<Rightarrow> Some (s1, Quit)
      | Some (s1, fl) \<Rightarrow>
          (case post_pass c e s1 of
             (s2, Exited) \<Rightarrow> Some (s2, Quit)
           | (s2, Returned) \<Rightarrow> Some (s2, fl)))"

subsection \<open>\<^verbatim>\<open>parse_plugin_list\<close> and the configured plugin lists\<close>

text \<open>
  \<^verbatim>\<open>[p.strip() for p in raw.split(",") if p.strip()]\<close>. \<open>split_comma\<close> is
  \<^verbatim>\<open>raw.split(",")\<close>, which always returns at least one piece; \<open>join_comma\<close> is its
  inverse \<^verbatim>\<open>",".join\<close>, used to state what the pieces are. \<open>or_default\<close> is Python's
  \<^verbatim>\<open>xs or default\<close> on lists, and the default lists are the ones written in the source.
\<close>

fun split_comma :: "string \<Rightarrow> string list" where
  "split_comma [] = [[]]"
| "split_comma (ch # cs) =
     (if ch = CHR '','' then [] # split_comma cs
      else (case split_comma cs of [] \<Rightarrow> [[ch]] | w # ws \<Rightarrow> (ch # w) # ws))"

fun join_comma :: "string list \<Rightarrow> string" where
  "join_comma [] = []"
| "join_comma [p] = p"
| "join_comma (p # q # ps) = p @ CHR '','' # join_comma (q # ps)"

definition parse_plugin_list :: "string \<Rightarrow> string list" where
  "parse_plugin_list raw = map strip (filter (\<lambda>p. strip p \<noteq> []) (split_comma raw))"

definition or_default :: "'a list \<Rightarrow> 'a list \<Rightarrow> 'a list" where
  "or_default xs d = (if xs = [] then d else xs)"

definition default_required :: "string list" where
  "default_required =
     [''Oblivion.esm'', ''DLCBattlehornCastle.esp'', ''DLCFrostcrag.esp'', ''DLCHorseArmor.esp'',
      ''DLCMehrunesRazor.esp'', ''DLCOrrery.esp'', ''DLCShiveringIsles.esp'', ''DLCSpellTomes.esp'',
      ''DLCThievesDen.esp'', ''DLCVileLair.esp'', ''Knights.esp'', ''AltarESPMain.esp'',
      ''AltarDeluxe.esp'']"

definition default_optional :: "string list" where
  "default_optional =
     [''Unofficial Oblivion Remastered Patch.esp'',
      ''Unofficial Oblivion Remastered Patch - Deluxe.esp'']"

definition configured_required :: "string \<Rightarrow> string list" where
  "configured_required required_plugins_raw =
     or_default (parse_plugin_list required_plugins_raw) default_required"

definition configured_optional :: "string \<Rightarrow> string list" where
  "configured_optional optional_plugins_raw =
     or_default (parse_plugin_list optional_plugins_raw) default_optional"

subsection \<open>\<^verbatim>\<open>wait_and_check_crash\<close>\<close>

text \<open>
  What the function sees of the world is supplied call by call: \<open>launch_seen k\<close> is the
  result of \<^verbatim>\<open>get_game_pid()\<close> in the \<open>k\<close>-th round of the start-up loop, and in the
  \<open>k\<close>-th round of the \<^verbatim>\<open>while\<close> loop \<open>tick_time k\<close> is the reading of \<^verbatim>\<open>time.time()\<close>,
  \<open>tick_key k\<close> the choice the operator made if a key was pressed and \<open>tick_alive k\<close> the
  result of \<^verbatim>\<open>get_game_pid()\<close>. Clock readings are real numbers. The result records how
  the function ended, the naps it asked \<^verbatim>\<open>time.sleep\<close> for, in seconds, and whether
  \<^verbatim>\<open>force_close_game\<close> was called. The \<^verbatim>\<open>while\<close> loop ends only when the clock moves on,
  so the first argument bounds its rounds.
\<close>

datatype choice = Resume | Revert | QuitNow

record watch =
  WAIT_SECONDS :: int
  TURBO_MODE :: bool
  start_time :: real
  launch_seen :: "nat \<Rightarrow> bool"
  tick_time :: "nat \<Rightarrow> real"
  tick_key :: "nat \<Rightarrow> choice option"
  tick_alive :: "nat \<Rightarrow> bool"

datatype wait_end = Return bool | RaisePause | SystemExit

record waited =
  ended :: wait_end
  sleeps :: "real list"
  force_closed :: bool

fun grace :: "(nat \<Rightarrow> bool) \<Rightarrow> nat \<Rightarrow> nat \<Rightarrow> nat option" where
  "grace seen k 0 = None"
| "grace seen k (Suc n) = (if seen k then Some k else grace seen (Suc k) n)"

definition nap :: "watch \<Rightarrow> real" where
  "nap w = (if TURBO_MODE w then 1 / 10 else 1 / 4)"

definition in_time :: "watch \<Rightarrow> nat \<Rightarrow> bool" where
  "in_time w k \<longleftrightarrow> tick_time w k - start_time w < of_int (WAIT_SECONDS w)"

fun wait_loop :: "nat \<Rightarrow> watch \<Rightarrow> nat \<Rightarrow> real list \<Rightarrow> waited option" where
  "wait_loop 0 w k sl = None"
| "wait_loop (Suc fuel) w k sl =
     (if in_time w k then
        (case tick_key w k of
           Some Resume \<Rightarrow> Some \<lparr>ended = RaisePause, sleeps = sl, force_closed = True\<rparr>
         | Some _ \<Rightarrow> Some \<lparr>ended = SystemExit, sleeps = sl, force_closed = True\<rparr>
         | None \<Rightarrow>
             if \<not> tick_alive w k then Some \<lparr>ended = Return True, sleeps = sl, force_closed = True\<rparr>
             else wait_loop fuel w (Suc k) (sl @ [nap w]))
      else Some \<lparr>ended = Return False, sleeps = sl, force_closed = True\<rparr>)"

definition wait_and_check_crash :: "nat \<Rightarrow> watch \<Rightarrow> waited option" where
  "wait_and_check_crash fuel w =
     (case grace (launch_seen w) 0 30 of
        None \<Rightarrow> Some \<lparr>ended = Return True, sleeps = replicate 30 (1 / 10), force_closed = True\<rparr>
      | Some g \<Rightarrow> wait_loop fuel w 0 (replicate g (1 / 10)))"

subsection \<open>Invariants of turbo mode\<close>

text \<open>
  For a set \<open>C\<close> of candidates, \<open>candidates_ok\<close> says that the lists have no duplicates,
  that no plugin is both safe and failed, that \<open>tested\<close> holds the safe and the failed
  plugins, that the required and optional plugins are safe, that only candidates fail or
  wait in \<open>remaining\<close>, and that every candidate is safe, failed or still in \<open>remaining\<close>.
  \<open>unclassified\<close> says that the plugins of a list are distinct and neither safe nor failed.
  \<open>grows\<close> relates the states before and after a loop: \<open>safe\<close> only gains plugins, and the
  history gains trials of which only the last can be a mega batch that passed, and is one
  exactly when the loop ended with \<open>MegaDone\<close>.
\<close>

definition candidates_ok :: "config \<Rightarrow> string set \<Rightarrow> state \<Rightarrow> bool" where
  "candidates_ok c C s \<longleftrightarrow>
     distinct (safe s) \<and> distinct (failed s) \<and> distinct (tested s) \<and> distinct (remaining s) \<and>
     set (safe s) \<inter> set (failed s) = {} \<and>
     set (tested s) = set (safe s) \<union> set (failed s) \<and>
     set (REQUIRED_PLUGINS c @ OPTIONAL_PATCHES c) \<subseteq> set (safe s) \<and>
     set (failed s) \<subseteq> C \<and>
     set (safe s) \<subseteq> set (REQUIRED_PLUGINS c @ OPTIONAL_PATCHES c) \<union> C \<and>
     set (remaining s) \<subseteq> C \<and>
     C \<subseteq> set (safe s) \<union> set (failed s) \<union> set (remaining s)"

definition unclassified :: "string list \<Rightarrow> state \<Rightarrow> bool" where
  "unclassified ps s \<longleftrightarrow> distinct ps \<and> set ps \<inter> (set (safe s) \<union> set (failed s)) = {}"

definition no_mega_pass :: "trial list \<Rightarrow> bool" where
  "no_mega_pass ts \<longleftrightarrow> (\<forall>t \<in> set ts. \<not> (level t = Mega \<and> verdict t = Passed))"

definition mega_end :: "flow \<Rightarrow> trial list \<Rightarrow> bool" where
  "mega_end fl ts \<longleftrightarrow>
     (if fl = MegaDone
      then \<exists>us m. ts = us @ [m] \<and> no_mega_pass us \<and> level m = Mega \<and> verdict m = Passed
      else no_mega_pass ts)"

definition grows :: "flow \<Rightarrow> state \<Rightarrow> state \<Rightarrow> bool" where
  "grows fl s s' \<longleftrightarrow>
     set (safe s) \<subseteq> set (safe s') \<and> (\<exists>ts. trials s' = trials s @ ts \<and> mega_end fl ts)"

subsection \<open>Shapes of the trial history\<close>

text \<open>
  The history that \<^verbatim>\<open>run_batch\<close> leaves after a crashed batch trial, read off the verdicts
  it holds: one \<open>SubBatch\<close> trial per sub-batch on the baseline of the safe list of that
  moment; after a crashed sub-batch of two or more plugins, one \<open>Singleton\<close> trial for
  each of its plugins; nothing after a crashed sub-batch of one plugin.
\<close>

fun single_trace ::
  "config \<Rightarrow> string list \<Rightarrow> string list \<Rightarrow> trial list \<Rightarrow> (string list \<times> trial list) option" where
  "single_trace c sf [] ts = Some (sf, ts)"
| "single_trace c sf (plugin # rest) [] = None"
| "single_trace c sf (plugin # rest) (t # ts) =
     (if level t = Singleton \<and> part t = [plugin] \<and> order t = batch_order c sf [plugin] then
        (case verdict t of
           Passed \<Rightarrow> single_trace c (append_new plugin sf) rest ts
         | Crashed \<Rightarrow> single_trace c sf rest ts
         | _ \<Rightarrow> None)
      else None)"

fun chunk_trace :: "config \<Rightarrow> string list \<Rightarrow> string list list \<Rightarrow> trial list \<Rightarrow> bool" where
  "chunk_trace c sf [] ts = (ts = [])"
| "chunk_trace c sf (sub # rest) [] = False"
| "chunk_trace c sf (sub # rest) (t # ts) =
     (level t = SubBatch \<and> part t = sub \<and> order t = batch_order c sf sub \<and>
      (case verdict t of
         Passed \<Rightarrow> chunk_trace c (sf @ sub) rest ts
       | Crashed \<Rightarrow>
           (if length sub = 1 then chunk_trace c sf rest ts
            else (case single_trace c sf sub ts of
                    None \<Rightarrow> False
                  | Some (sf', ts') \<Rightarrow> chunk_trace c sf' rest ts'))
       | _ \<Rightarrow> False))"

text \<open>
  The recursive reading of the engine: in a history, the trial after a crashed sub-batch
  of two or more plugins is the first slice of that sub-batch under \<^verbatim>\<open>get_batch_size\<close>.
\<close>

definition repartitions_crashed_chunks :: "trial list \<Rightarrow> bool" where
  "repartitions_crashed_chunks ts =
     (\<forall>i < length ts.
        level (ts ! i) = SubBatch \<and> verdict (ts ! i) = Crashed \<and> 2 \<le> length (part (ts ! i)) \<longrightarrow>
        Suc i < length ts \<and>
        part (ts ! Suc i) = take (get_batch_size (length (part (ts ! i)))) (part (ts ! i)))"

text \<open>What a history shows of each attempt: its level, the plugins under test and the verdict.\<close>

definition history :: "state \<Rightarrow> (level \<times> string list \<times> outcome) list" where
  "history s = map (\<lambda>t. (level t, part t, verdict t)) (trials s)"

subsection \<open>Example inputs\<close>

definition example_config :: config where
  "example_config =
     \<lparr>REQUIRED_PLUGINS = [''Oblivion.esm''], OPTIONAL_PATCHES = [''Unofficial Patch.esp''],
      BATCH_SIZE = 20, backup_plugins = []\<rparr>"

definition fresh :: state where
  "fresh = \<lparr>safe = [], tested = [], failed = [], remaining = [], trials = []\<rparr>"

definition twenty_plugins :: "string list" where
  "twenty_plugins =
     [''a01.esp'', ''a02.esp'', ''a03.esp'', ''a04.esp'', ''a05.esp'',
      ''a06.esp'', ''a07.esp'', ''a08.esp'', ''a09.esp'', ''a10.esp'',
      ''a11.esp'', ''a12.esp'', ''a13.esp'', ''a14.esp'', ''a15.esp'',
      ''a16.esp'', ''a17.esp'', ''a18.esp'', ''a19.esp'', ''a20.esp'']"

definition five_plugins :: "string list" where
  "five_plugins = [''a01.esp'', ''a02.esp'', ''a03.esp'', ''a04.esp'', ''a05.esp'']"

definition always :: "outcome \<Rightarrow> env" where
  "always v = \<lparr>answer = (\<lambda>n ord. v), retest = False\<rparr>"

definition first_then :: "nat \<Rightarrow> outcome \<Rightarrow> outcome \<Rightarrow> env" where
  \<comment> \<open>the first \<open>k\<close> attempts end in \<open>v\<close>, the later ones in \<open>w\<close>\<close>
  "first_then k v w = \<lparr>answer = (\<lambda>n ord. if n < k then v else w), retest = False\<rparr>"

definition script :: "outcome list \<Rightarrow> bool \<Rightarrow> env" where
  \<comment> \<open>the attempts end as listed, and pass once the list is used up\<close>
  "script vs yes = \<lparr>answer = (\<lambda>n ord. if n < length vs then vs ! n else Passed), retest = yes\<rparr>"

definition turbo_config :: config where
  "turbo_config =
     \<lparr>REQUIRED_PLUGINS = [''Oblivion.esm''], OPTIONAL_PATCHES = [''Unofficial Patch.esp''],
      BATCH_SIZE = 10, backup_plugins = five_plugins\<rparr>"

definition turbo_mid :: state where
  "turbo_mid =
     \<lparr>safe = [''Oblivion.esm'', ''Unofficial Patch.esp''],
      tested = [''Oblivion.esm'', ''Unofficial Patch.esp''],
      failed = [], remaining = five_plugins, trials = []\<rparr>"

definition two_failed :: state where
  "two_failed =
     \<lparr>safe = [''Oblivion.esm'', ''Unofficial Patch.esp'', ''a03.esp'', ''a04.esp'', ''a05.esp''],
      tested = [''Oblivion.esm'', ''Unofficial Patch.esp'', ''a01.esp'', ''a02.esp'', ''a03.esp'',
                ''a04.esp'', ''a05.esp''],
      failed = [''a01.esp'', ''a02.esp''], remaining = [], trials = []\<rparr>"

definition watch_never :: watch where
  "watch_never =
     \<lparr>WAIT_SECONDS = 11, TURBO_MODE = False, start_time = 0, launch_seen = (\<lambda>k. False),
      tick_time = (\<lambda>k. 3), tick_key = (\<lambda>k. None), tick_alive = (\<lambda>k. False)\<rparr>"

definition watch_alive :: watch where
  "watch_alive =
     \<lparr>WAIT_SECONDS = 1, TURBO_MODE = False, start_time = 0, launch_seen = (\<lambda>k. 2 \<le> k),
      tick_time = (\<lambda>k. of_nat k / 4 + 1 / 5), tick_key = (\<lambda>k. None), tick_alive = (\<lambda>k. True)\<rparr>"

definition watch_dies :: watch where
  "watch_dies =
     \<lparr>WAIT_SECONDS = 1, TURBO_MODE = False, start_time = 0, launch_seen = (\<lambda>k. 2 \<le> k),
      tick_time = (\<lambda>k. of_nat k / 4 + 1 / 5), tick_key = (\<lambda>k. None), tick_alive = (\<lambda>k. k < 2)\<rparr>"

text \<open>
  A game that is found at once and whose process ends when the clock shows \<open>x\<close>. The wait
  is of one second from the clock reading 0; the rounds of the \<^verbatim>\<open>while\<close> loop read the clock
  at 0.2, 0.45, 0.7, 0.95, 1.2 and so on, and the poll of a round finds the process when
  the reading of the round is before \<open>x\<close>.
\<close>

definition watch_exit :: "real \<Rightarrow> watch" where
  "watch_exit x =
     \<lparr>WAIT_SECONDS = 1, TURBO_MODE = False, start_time = 0, launch_seen = (\<lambda>k. True),
      tick_time = (\<lambda>k. of_nat k / 4 + 1 / 5), tick_key = (\<lambda>k. None),
      tick_alive = (\<lambda>k. of_nat k / 4 + 1 / 5 < x)\<rparr>"


section \<open>Properties\<close>

subsection \<open>Basic facts\<close>

lemma attempt_eq:
  "attempt e lv ps ord s =
     (answer e (length (trials s)) ord,
      s\<lparr>trials := trials s @
           [\<lparr>level = lv, part = ps, order = ord, verdict = answer e (length (trials s)) ord\<rparr>]\<rparr>)"
  by (simp add: attempt_def Let_def)

lemma mark_safe_simps [simp]:
  "safe (mark_safe p s) = append_new p (safe s)"
  "tested (mark_safe p s) = append_new p (tested s)"
  "failed (mark_safe p s) = failed s"
  "remaining (mark_safe p s) = remaining s"
  "trials (mark_safe p s) = trials s"
  by (simp_all add: mark_safe_def)

lemma mark_failed_simps [simp]:
  "safe (mark_failed p s) = safe s"
  "tested (mark_failed p s) = append_new p (tested s)"
  "failed (mark_failed p s) = append_new p (failed s)"
  "remaining (mark_failed p s) = remaining s"
  "trials (mark_failed p s) = trials s"
  by (simp_all add: mark_failed_def)

lemma extend_safe_simps [simp]:
  "safe (extend_safe b s) = safe s @ b"
  "tested (extend_safe b s) = tested s @ b"
  "failed (extend_safe b s) = failed s"
  "remaining (extend_safe b s) = remaining s"
  "trials (extend_safe b s) = trials s"
  by (simp_all add: extend_safe_def)

lemma get_batch_size_pos: "0 < get_batch_size n"
  by (simp add: get_batch_size_def)

lemma sub_batches_Nil [simp]: "sub_batches k [] = []"
  by (simp add: sub_batches.simps)

lemma sub_batches_step:
  "0 < k \<Longrightarrow> xs \<noteq> [] \<Longrightarrow> sub_batches k xs = take k xs # sub_batches k (drop k xs)"
  by (subst sub_batches.simps) simp

lemma concat_sub_batches: "0 < k \<Longrightarrow> concat (sub_batches k xs) = xs"
proof (induction k xs rule: sub_batches.induct)
  case (1 k xs)
  show ?case
  proof (cases "xs = []")
    case True
    then show ?thesis by simp
  next
    case False
    with 1 show ?thesis by (simp add: sub_batches_step)
  qed
qed

lemma nth_sub_batches:
  "0 < k \<Longrightarrow> i < length (sub_batches k xs) \<Longrightarrow> sub_batches k xs ! i = take k (drop (i * k) xs)"
proof (induction k xs arbitrary: i rule: sub_batches.induct)
  case (1 k xs)
  show ?case
  proof (cases "xs = []")
    case True
    with 1(3) show ?thesis by simp
  next
    case False
    show ?thesis
    proof (cases i)
      case 0
      with False 1(2) show ?thesis by (simp add: sub_batches_step)
    next
      case (Suc j)
      with 1(3) False 1(2) have "j < length (sub_batches k (drop k xs))"
        by (simp add: sub_batches_step)
      with 1(1) [of j] False 1(2) have "sub_batches k (drop k xs) ! j = take k (drop (j * k) (drop k xs))"
        by simp
      with Suc False 1(2) show ?thesis by (simp add: sub_batches_step add.commute)
    qed
  qed
qed

lemma length_sub_batches: "0 < k \<Longrightarrow> length (sub_batches k xs) = (length xs + k - 1) div k"
proof (induction k xs rule: sub_batches.induct)
  case (1 k xs)
  show ?case
  proof (cases "xs = []")
    case True
    with 1(2) show ?thesis by simp
  next
    case False
    then have pos: "0 < length xs" by simp
    from 1(2) False have eq: "length (sub_batches k xs) = Suc (length (sub_batches k (drop k xs)))"
      by (subst sub_batches_step) simp_all
    from 1(1) False 1(2) have ih: "length (sub_batches k (drop k xs)) = (length (drop k xs) + k - 1) div k"
      by blast
    show ?thesis
    proof (cases "k \<le> length xs")
      case True
      then have a: "length (drop k xs) + k - 1 = length xs - 1" using pos by (simp add: length_drop)
      have b: "length xs + k - 1 = (length xs - 1) + k" using pos by arith
      have "(length xs + k - 1) div k = Suc ((length xs - 1) div k)"
        unfolding b using 1(2) by (simp add: div_add_self2)
      with eq ih a show ?thesis by simp
    next
      case False
      then have a: "length (drop k xs) + k - 1 = k - 1" by simp
      have "(k - 1) div k = 0" using 1(2) by simp
      with ih a have z: "length (sub_batches k (drop k xs)) = 0" by simp
      have b: "length xs + k - 1 = (length xs - 1) + k" using pos by arith
      have "(length xs - 1) div k = 0" using False pos by simp
      then have "(length xs + k - 1) div k = 1"
        unfolding b using 1(2) by (simp add: div_add_self2)
      with eq z show ?thesis by simp
    qed
  qed
qed

subsection \<open>What a load order holds\<close>

lemma dedupe_turbo_subseq: "subseq (dedupe_turbo seen xs) xs"
  by (induction xs arbitrary: seen) (auto simp add: Let_def intro: list_emb_Cons)

lemma dedupe_turbo_keys:
  "key_of ` set (dedupe_turbo seen xs) = key_of ` {p \<in> set xs. p \<noteq> []} - set seen"
proof (induction xs arbitrary: seen)
  case Nil
  show ?case by simp
next
  case (Cons x xs)
  show ?case
  proof (cases "strip (lower x) \<notin> set seen \<and> x \<noteq> []")
    case True
    then have "dedupe_turbo seen (x # xs) = x # dedupe_turbo (key_of x # seen) xs"
      by (simp add: key_of_def)
    with Cons [of "key_of x # seen"] True show ?thesis by (auto simp add: key_of_def)
  next
    case False
    then have "dedupe_turbo seen (x # xs) = dedupe_turbo seen xs" by auto
    with Cons [of seen] False show ?thesis by (auto simp add: key_of_def)
  qed
qed

lemma dedupe_turbo_distinct: "distinct (map key_of (dedupe_turbo seen xs))"
proof (induction xs arbitrary: seen)
  case Nil
  show ?case by simp
next
  case (Cons x xs)
  show ?case
  proof (cases "strip (lower x) \<notin> set seen \<and> x \<noteq> []")
    case True
    then have e: "dedupe_turbo seen (x # xs) = x # dedupe_turbo (key_of x # seen) xs"
      by (simp add: key_of_def)
    have "key_of x \<notin> key_of ` set (dedupe_turbo (key_of x # seen) xs)"
      unfolding dedupe_turbo_keys by simp
    with Cons [of "key_of x # seen"] show ?thesis unfolding e by simp
  next
    case False
    then have "dedupe_turbo seen (x # xs) = dedupe_turbo seen xs" by auto
    with Cons [of seen] show ?thesis by simp
  qed
qed

lemma dedupe_turbo_kept: "p \<in> set (dedupe_turbo seen xs) \<Longrightarrow> p \<noteq> []"
  by (induction xs arbitrary: seen) (auto simp add: Let_def split: if_splits)

lemma dedupe_turbo_first:
  "p \<noteq> [] \<Longrightarrow> key_of p \<notin> set seen \<Longrightarrow> key_of p \<notin> key_of ` {q \<in> set ys. q \<noteq> []} \<Longrightarrow>
   p \<in> set (dedupe_turbo seen (ys @ p # zs))"
proof (induction ys arbitrary: seen)
  case Nil
  then show ?case by (simp add: key_of_def)
next
  case (Cons y ys)
  show ?case
  proof (cases "strip (lower y) \<notin> set seen \<and> y \<noteq> []")
    case True
    then have e: "dedupe_turbo seen ((y # ys) @ p # zs) = y # dedupe_turbo (key_of y # seen) (ys @ p # zs)"
      by (simp add: key_of_def)
    from Cons.prems True have "key_of p \<notin> set (key_of y # seen)" by auto
    with Cons.IH [of "key_of y # seen"] Cons.prems show ?thesis unfolding e by auto
  next
    case False
    then have e: "dedupe_turbo seen ((y # ys) @ p # zs) = dedupe_turbo seen (ys @ p # zs)" by auto
    from Cons.IH [of seen] Cons.prems show ?thesis unfolding e by auto
  qed
qed

lemma dedupe_turbo_drop:
  "\<forall>u \<in> A. u = [] \<or> key_of u \<in> set seen \<Longrightarrow>
   dedupe_turbo seen ([p \<leftarrow> ys. p \<notin> A] @ zs) = dedupe_turbo seen (ys @ zs)"
proof (induction ys arbitrary: seen)
  case Nil
  show ?case by simp
next
  case (Cons y ys)
  show ?case
  proof (cases "y \<in> A")
    case True
    with Cons.prems have "y = [] \<or> key_of y \<in> set seen" by blast
    then have "dedupe_turbo seen ((y # ys) @ zs) = dedupe_turbo seen (ys @ zs)"
      by (auto simp add: key_of_def)
    with Cons.IH [OF Cons.prems] True show ?thesis by simp
  next
    case False
    from Cons.prems have "\<forall>u \<in> A. u = [] \<or> key_of u \<in> set (key_of y # seen)" by auto
    from Cons.IH [OF this] Cons.IH [OF Cons.prems] False show ?thesis
      by (simp add: Let_def key_of_def)
  qed
qed

lemma dedupe_turbo_filter:
  "\<forall>u \<in> A. u = [] \<or> key_of u \<in> set seen \<Longrightarrow>
   dedupe_turbo seen (xs @ [p \<leftarrow> ys. p \<notin> A \<union> set xs] @ zs) = dedupe_turbo seen (xs @ ys @ zs)"
proof (induction xs arbitrary: seen A)
  case Nil
  then show ?case using dedupe_turbo_drop [of A seen ys zs] by simp
next
  case (Cons x xs)
  have u: "A \<union> set (x # xs) = insert x A \<union> set xs" by auto
  show ?case
  proof (cases "strip (lower x) \<notin> set seen \<and> x \<noteq> []")
    case True
    from Cons.prems have "\<forall>u \<in> insert x A. u = [] \<or> key_of u \<in> set (key_of x # seen)" by auto
    from Cons.IH [OF this] True show ?thesis unfolding u by (simp add: key_of_def)
  next
    case False
    with Cons.prems have "\<forall>u \<in> insert x A. u = [] \<or> key_of u \<in> set seen"
      by (auto simp add: key_of_def)
    from Cons.IH [OF this] False show ?thesis unfolding u by auto
  qed
qed

lemma dedupe_turbo_load_order: "load_order (\<lambda>p. p \<noteq> []) xs (dedupe_turbo [] xs)"
  unfolding load_order_def
proof (intro conjI allI impI ballI)
  show "subseq (dedupe_turbo [] xs) xs" by (rule dedupe_turbo_subseq)
  show "distinct (map key_of (dedupe_turbo [] xs))" by (rule dedupe_turbo_distinct)
  show "p \<noteq> []" if "p \<in> set (dedupe_turbo [] xs)" for p using that by (rule dedupe_turbo_kept)
  show "key_of p \<in> key_of ` set (dedupe_turbo [] xs)" if "p \<in> set xs" "p \<noteq> []" for p
    using that unfolding dedupe_turbo_keys by auto
  show "p \<in> set (dedupe_turbo [] xs)"
    if "xs = ys @ p # zs \<and> p \<noteq> [] \<and> key_of p \<notin> key_of ` {q \<in> set ys. q \<noteq> []}" for ys p zs
    using that dedupe_turbo_first [of p "[]" ys zs] by simp
qed

lemma turbo_order_load_order:
  "load_order (\<lambda>p. p \<noteq> []) (REQUIRED_PLUGINS c @ OPTIONAL_PATCHES c @ sf @ b) (turbo_order c sf b)"
proof -
  have "turbo_order c sf b =
      dedupe_turbo [] ((REQUIRED_PLUGINS c @ OPTIONAL_PATCHES c) @ sf @ b)"
    unfolding turbo_order_def baseline_def Let_def
    using dedupe_turbo_filter [of "{}" "[]" "REQUIRED_PLUGINS c @ OPTIONAL_PATCHES c" sf b]
    by simp
  then show ?thesis using dedupe_turbo_load_order [of "REQUIRED_PLUGINS c @ OPTIONAL_PATCHES c @ sf @ b"]
    by simp
qed

lemma recheck_order_load_order:
  "load_order (\<lambda>p. p \<noteq> [])
     (REQUIRED_PLUGINS c @ OPTIONAL_PATCHES c @ [p \<leftarrow> backup_plugins c. p \<in> set sf] @ [plugin])
     (recheck_order c sf plugin)"
proof -
  have "recheck_order c sf plugin =
      dedupe_turbo [] ((REQUIRED_PLUGINS c @ OPTIONAL_PATCHES c) @ [p \<leftarrow> backup_plugins c. p \<in> set sf] @ [plugin])"
    unfolding recheck_order_def Let_def
    using dedupe_turbo_filter [of "{}" "[]" "REQUIRED_PLUGINS c @ OPTIONAL_PATCHES c"
        "[p \<leftarrow> backup_plugins c. p \<in> set sf]" "[plugin]"]
    by simp
  then show ?thesis
    using dedupe_turbo_load_order [of "REQUIRED_PLUGINS c @ OPTIONAL_PATCHES c @ [p \<leftarrow> backup_plugins c. p \<in> set sf] @ [plugin]"]
    by simp
qed

lemma dedupe_key_subseq: "subseq (dedupe_key seen xs) xs"
  by (induction xs arbitrary: seen) (auto simp add: Let_def intro: list_emb_Cons)

lemma dedupe_key_keys:
  "key_of ` set (dedupe_key seen xs) = key_of ` {p \<in> set xs. key_of p \<noteq> []} - set seen"
proof (induction xs arbitrary: seen)
  case Nil
  show ?case by simp
next
  case (Cons x xs)
  show ?case
  proof (cases "strip (lower x) \<noteq> [] \<and> strip (lower x) \<notin> set seen")
    case True
    then have "dedupe_key seen (x # xs) = x # dedupe_key (key_of x # seen) xs"
      by (simp add: key_of_def)
    with Cons [of "key_of x # seen"] True show ?thesis by (auto simp add: key_of_def)
  next
    case False
    then have "dedupe_key seen (x # xs) = dedupe_key seen xs" by auto
    with Cons [of seen] False show ?thesis by (auto simp add: key_of_def)
  qed
qed

lemma dedupe_key_distinct: "distinct (map key_of (dedupe_key seen xs))"
proof (induction xs arbitrary: seen)
  case Nil
  show ?case by simp
next
  case (Cons x xs)
  show ?case
  proof (cases "strip (lower x) \<noteq> [] \<and> strip (lower x) \<notin> set seen")
    case True
    then have e: "dedupe_key seen (x # xs) = x # dedupe_key (key_of x # seen) xs"
      by (simp add: key_of_def)
    have "key_of x \<notin> key_of ` set (dedupe_key (key_of x # seen) xs)"
      unfolding dedupe_key_keys by simp
    with Cons [of "key_of x # seen"] show ?thesis unfolding e by simp
  next
    case False
    then have "dedupe_key seen (x # xs) = dedupe_key seen xs" by auto
    with Cons [of seen] show ?thesis by simp
  qed
qed

lemma dedupe_key_kept: "p \<in> set (dedupe_key seen xs) \<Longrightarrow> key_of p \<noteq> []"
  by (induction xs arbitrary: seen) (auto simp add: Let_def key_of_def split: if_splits)

lemma dedupe_key_first:
  "key_of p \<noteq> [] \<Longrightarrow> key_of p \<notin> set seen \<Longrightarrow> key_of p \<notin> key_of ` {q \<in> set ys. key_of q \<noteq> []} \<Longrightarrow>
   p \<in> set (dedupe_key seen (ys @ p # zs))"
proof (induction ys arbitrary: seen)
  case Nil
  then show ?case by (simp add: key_of_def)
next
  case (Cons y ys)
  show ?case
  proof (cases "strip (lower y) \<noteq> [] \<and> strip (lower y) \<notin> set seen")
    case True
    then have e: "dedupe_key seen ((y # ys) @ p # zs) = y # dedupe_key (key_of y # seen) (ys @ p # zs)"
      by (simp add: key_of_def)
    from Cons.prems True have "key_of p \<notin> set (key_of y # seen)" by auto
    with Cons.IH [of "key_of y # seen"] Cons.prems show ?thesis unfolding e by auto
  next
    case False
    then have e: "dedupe_key seen ((y # ys) @ p # zs) = dedupe_key seen (ys @ p # zs)" by auto
    from Cons.IH [of seen] Cons.prems show ?thesis unfolding e by auto
  qed
qed

lemma dedupe_key_drop:
  "\<forall>u \<in> A. key_of u = [] \<or> key_of u \<in> set seen \<Longrightarrow>
   dedupe_key seen ([p \<leftarrow> ys. p \<notin> A] @ zs) = dedupe_key seen (ys @ zs)"
proof (induction ys arbitrary: seen)
  case Nil
  show ?case by simp
next
  case (Cons y ys)
  show ?case
  proof (cases "y \<in> A")
    case True
    with Cons.prems have "key_of y = [] \<or> key_of y \<in> set seen" by blast
    then have "dedupe_key seen ((y # ys) @ zs) = dedupe_key seen (ys @ zs)"
      by (auto simp add: key_of_def)
    with Cons.IH [OF Cons.prems] True show ?thesis by simp
  next
    case False
    from Cons.prems have "\<forall>u \<in> A. key_of u = [] \<or> key_of u \<in> set (key_of y # seen)" by auto
    from Cons.IH [OF this] Cons.IH [OF Cons.prems] False show ?thesis
      by (simp add: Let_def key_of_def)
  qed
qed

lemma dedupe_key_filter:
  "\<forall>u \<in> A. key_of u = [] \<or> key_of u \<in> set seen \<Longrightarrow>
   dedupe_key seen (xs @ [p \<leftarrow> ys. p \<notin> A \<union> set xs] @ zs) = dedupe_key seen (xs @ ys @ zs)"
proof (induction xs arbitrary: seen A)
  case Nil
  then show ?case using dedupe_key_drop [of A seen ys zs] by simp
next
  case (Cons x xs)
  have u: "A \<union> set (x # xs) = insert x A \<union> set xs" by auto
  show ?case
  proof (cases "strip (lower x) \<noteq> [] \<and> strip (lower x) \<notin> set seen")
    case True
    from Cons.prems have "\<forall>u \<in> insert x A. key_of u = [] \<or> key_of u \<in> set (key_of x # seen)" by auto
    from Cons.IH [OF this] True show ?thesis unfolding u by (simp add: key_of_def)
  next
    case False
    with Cons.prems have "\<forall>u \<in> insert x A. key_of u = [] \<or> key_of u \<in> set seen"
      by (auto simp add: key_of_def)
    from Cons.IH [OF this] False show ?thesis unfolding u by auto
  qed
qed

lemma dedupe_key_load_order: "load_order (\<lambda>p. key_of p \<noteq> []) xs (dedupe_key [] xs)"
  unfolding load_order_def
proof (intro conjI allI impI ballI)
  show "subseq (dedupe_key [] xs) xs" by (rule dedupe_key_subseq)
  show "distinct (map key_of (dedupe_key [] xs))" by (rule dedupe_key_distinct)
  show "key_of p \<noteq> []" if "p \<in> set (dedupe_key [] xs)" for p using that by (rule dedupe_key_kept)
  show "key_of p \<in> key_of ` set (dedupe_key [] xs)" if "p \<in> set xs" "key_of p \<noteq> []" for p
    using that unfolding dedupe_key_keys by auto
  show "p \<in> set (dedupe_key [] xs)"
    if "xs = ys @ p # zs \<and> key_of p \<noteq> [] \<and> key_of p \<notin> key_of ` {q \<in> set ys. key_of q \<noteq> []}" for ys p zs
    using that dedupe_key_first [of p "[]" ys zs] by simp
qed

lemma batch_order_load_order:
  "load_order (\<lambda>p. key_of p \<noteq> []) (REQUIRED_PLUGINS c @ OPTIONAL_PATCHES c @ sf @ b) (batch_order c sf b)"
proof -
  have "batch_order c sf b =
      dedupe_key [] ((REQUIRED_PLUGINS c @ OPTIONAL_PATCHES c) @ sf @ b)"
    unfolding batch_order_def baseline_def Let_def
    using dedupe_key_filter [of "{}" "[]" "REQUIRED_PLUGINS c @ OPTIONAL_PATCHES c" sf b]
    by simp
  then show ?thesis using dedupe_key_load_order [of "REQUIRED_PLUGINS c @ OPTIONAL_PATCHES c @ sf @ b"]
    by simp
qed

lemmas run_eval = attempt_def sub_batches.simps get_batch_size_def extend_safe_def
  mark_failed_def mark_safe_def append_new_def first_then_def always_def script_def fresh_def

subsection \<open>The history of \<^verbatim>\<open>run_batch\<close> after a crashed batch\<close>

lemma attempt_facts:
  assumes "attempt e lv ps ord s = (v, s1)"
  shows "v = answer e (length (trials s)) ord" "safe s1 = safe s" "tested s1 = tested s"
    "failed s1 = failed s" "remaining s1 = remaining s"
    "trials s1 = trials s @ [\<lparr>level = lv, part = ps, order = ord, verdict = v\<rparr>]"
  using assms by (auto simp add: attempt_eq)

lemma single_loop_trace:
  assumes wb: "\<forall>n ord. answer e n ord = Passed \<or> answer e n ord = Crashed"
  shows "\<exists>s' ts. single_loop c e ps s = (s', Returned) \<and> trials s' = trials s @ ts \<and>
           (\<forall>more. single_trace c (safe s) ps (ts @ more) = Some (safe s', more))"
proof (induction ps arbitrary: s)
  case Nil
  show ?case by simp
next
  case (Cons plugin rest)
  obtain v s1 where a: "attempt e Singleton [plugin] (batch_order c (safe s) [plugin]) s = (v, s1)"
    by (cases "attempt e Singleton [plugin] (batch_order c (safe s) [plugin]) s")
  note f = attempt_facts [OF a]
  from wb f(1) have "v = Passed \<or> v = Crashed" by blast
  then show ?case
  proof
    assume v: "v = Passed"
    from Cons.IH [of "mark_safe plugin s1"] obtain s' ts where
      h: "single_loop c e rest (mark_safe plugin s1) = (s', Returned)"
         "trials s' = trials (mark_safe plugin s1) @ ts"
         "\<forall>more. single_trace c (safe (mark_safe plugin s1)) rest (ts @ more) = Some (safe s', more)"
      by blast
    show ?thesis
      using h v a f(2,6) by simp
  next
    assume v: "v = Crashed"
    from Cons.IH [of "mark_failed plugin s1"] obtain s' ts where
      h: "single_loop c e rest (mark_failed plugin s1) = (s', Returned)"
         "trials s' = trials (mark_failed plugin s1) @ ts"
         "\<forall>more. single_trace c (safe (mark_failed plugin s1)) rest (ts @ more) = Some (safe s', more)"
      by blast
    show ?thesis
      using h v a f(2,6) by simp
  qed
qed

lemma sub_loop_trace:
  assumes wb: "\<forall>n ord. answer e n ord = Passed \<or> answer e n ord = Crashed"
  shows "\<exists>s' ts. sub_loop c e chunks s = (s', Returned) \<and> trials s' = trials s @ ts \<and>
           chunk_trace c (safe s) chunks ts"
proof (induction chunks arbitrary: s)
  case Nil
  show ?case by simp
next
  case (Cons sub rest)
  obtain v s1 where a: "attempt e SubBatch sub (batch_order c (safe s) sub) s = (v, s1)"
    by (cases "attempt e SubBatch sub (batch_order c (safe s) sub) s")
  note f = attempt_facts [OF a]
  from wb f(1) have "v = Passed \<or> v = Crashed" by blast
  then show ?case
  proof
    assume v: "v = Passed"
    from Cons.IH [of "extend_safe sub s1"] obtain s' ts where
      h: "sub_loop c e rest (extend_safe sub s1) = (s', Returned)"
         "trials s' = trials (extend_safe sub s1) @ ts"
         "chunk_trace c (safe (extend_safe sub s1)) rest ts"
      by blast
    show ?thesis using h v a f(2,6) by simp
  next
    assume v: "v = Crashed"
    show ?thesis
    proof (cases "length sub = 1")
      case True
      then obtain plugin where sub: "sub = [plugin]" by (cases sub) auto
      from Cons.IH [of "mark_failed plugin s1"] obtain s' ts where
        h: "sub_loop c e rest (mark_failed plugin s1) = (s', Returned)"
           "trials s' = trials (mark_failed plugin s1) @ ts"
           "chunk_trace c (safe (mark_failed plugin s1)) rest ts"
        by blast
      show ?thesis using h v a f(2,6) sub by simp
    next
      case False
      from single_loop_trace [OF wb, of c sub s1] obtain s2 ts1 where
        h1: "single_loop c e sub s1 = (s2, Returned)" "trials s2 = trials s1 @ ts1"
            "\<forall>more. single_trace c (safe s1) sub (ts1 @ more) = Some (safe s2, more)"
        by blast
      from Cons.IH [of s2] obtain s' ts where
        h: "sub_loop c e rest s2 = (s', Returned)" "trials s' = trials s2 @ ts"
           "chunk_trace c (safe s2) rest ts"
        by blast
      from h1(3) f(2) have tr: "single_trace c (safe s) sub (ts1 @ ts) = Some (safe s2, ts)" by simp
      show ?thesis
        using h h1(1,2) tr v False a f(2,6)
        by (auto split: list.splits)
    qed
  qed
qed

text \<open>
  Claim C1, as the code has it. When the trial of a batch crashes and every later trial
  ends in a pass or a crash, \<^verbatim>\<open>run_batch\<close> returns, and after the batch trial its
  history is that of \<open>chunk_trace\<close>: one trial for each consecutive slice of
  \<^verbatim>\<open>get_batch_size(len(batch))\<close> plugins, each on the baseline of the safe list of that
  moment; a crashed slice of two or more plugins is followed by one trial for each of its
  plugins, and no slice is split again. The slices are \<^verbatim>\<open>batch[i*k : i*k + k]\<close>, and the
  step function has the thresholds of the claim. The load order \<open>batch_order c sf b\<close> of a
  trial of the plugins \<open>b\<close> at a moment when the safe list is \<open>sf\<close> is the list of the
  required plugins, the optional plugins, \<open>sf\<close> and \<open>b\<close>, in this order, deduplicated by
  the key and without the entries whose key is empty.
\<close>

theorem run_batch_crashed_three_levels:
  assumes "\<forall>n ord. answer e n ord = Passed \<or> answer e n ord = Crashed"
    and "answer e (length (trials s)) (batch_order c (safe s) batch) = Crashed"
  shows "(\<exists>s' ts. run_batch (Suc fuel) c e batch s = Some (s', Returned) \<and>
           trials s' = trials s @
             \<lparr>level = Batch, part = batch, order = batch_order c (safe s) batch, verdict = Crashed\<rparr> # ts \<and>
           chunk_trace c (safe s) (sub_batches (get_batch_size (length batch)) batch) ts) \<and>
         length (sub_batches (get_batch_size (length batch)) batch) =
           (length batch + get_batch_size (length batch) - 1) div get_batch_size (length batch) \<and>
         (\<forall>i < length (sub_batches (get_batch_size (length batch)) batch).
           sub_batches (get_batch_size (length batch)) batch ! i =
             take (get_batch_size (length batch)) (drop (i * get_batch_size (length batch)) batch)) \<and>
         get_batch_size (length batch) =
           (if 200 \<le> length batch then 25 else if 150 \<le> length batch then 20
            else if 100 \<le> length batch then 15 else if 50 \<le> length batch then 10
            else if 20 \<le> length batch then 5 else if 10 \<le> length batch then 3
            else if 5 \<le> length batch then 2 else 1) \<and>
         (\<forall>sf b. load_order (\<lambda>p. key_of p \<noteq> [])
            (REQUIRED_PLUGINS c @ OPTIONAL_PATCHES c @ sf @ b) (batch_order c sf b))"
proof -
  obtain v s1 where a: "attempt e Batch batch (batch_order c (safe s) batch) s = (v, s1)"
    by (cases "attempt e Batch batch (batch_order c (safe s) batch) s")
  note f = attempt_facts [OF a]
  from f(1) assms(2) have v: "v = Crashed" by simp
  from sub_loop_trace [OF assms(1), of c "sub_batches (get_batch_size (length batch)) batch" s1]
  obtain s' ts where
    h: "sub_loop c e (sub_batches (get_batch_size (length batch)) batch) s1 = (s', Returned)"
       "trials s' = trials s1 @ ts"
       "chunk_trace c (safe s1) (sub_batches (get_batch_size (length batch)) batch) ts"
    by blast
  have "\<exists>s' ts. run_batch (Suc fuel) c e batch s = Some (s', Returned) \<and>
           trials s' = trials s @
             \<lparr>level = Batch, part = batch, order = batch_order c (safe s) batch, verdict = Crashed\<rparr> # ts \<and>
           chunk_trace c (safe s) (sub_batches (get_batch_size (length batch)) batch) ts"
    using h a v f(2,6) by simp
  moreover have "get_batch_size (length batch) =
           (if 200 \<le> length batch then 25 else if 150 \<le> length batch then 20
            else if 100 \<le> length batch then 15 else if 50 \<le> length batch then 10
            else if 20 \<le> length batch then 5 else if 10 \<le> length batch then 3
            else if 5 \<le> length batch then 2 else 1)"
    by (simp add: get_batch_size_def)
  ultimately show ?thesis
    by (simp add: length_sub_batches nth_sub_batches get_batch_size_pos batch_order_load_order)
qed

text \<open>
  Witness for C1: twenty plugins whose batch, first sub-batch and first plugin crash. The
  second plugin passes, so the trial of the third is made on a load order that holds it.
\<close>

theorem run_batch_crashed_three_levels_witness:
  "(\<forall>n ord. answer (first_then 3 Crashed Passed) n ord = Passed \<or>
             answer (first_then 3 Crashed Passed) n ord = Crashed) \<and>
   answer (first_then 3 Crashed Passed) (length (trials fresh))
     (batch_order example_config (safe fresh) twenty_plugins) = Crashed \<and>
   (\<exists>s' ts. run_batch 1 example_config (first_then 3 Crashed Passed) twenty_plugins fresh =
              Some (s', Returned) \<and>
      trials s' = \<lparr>level = Batch, part = twenty_plugins,
                    order = batch_order example_config [] twenty_plugins, verdict = Crashed\<rparr> # ts \<and>
      chunk_trace example_config [] (sub_batches 5 twenty_plugins) ts) \<and>
   length (sub_batches 5 twenty_plugins) = 4 \<and>
   sub_batches 5 twenty_plugins ! 1 = take 5 (drop 5 twenty_plugins) \<and>
   part (trials (fst (the (run_batch 1 example_config (first_then 3 Crashed Passed)
           twenty_plugins fresh))) ! 4) = [''a03.esp''] \<and>
   order (trials (fst (the (run_batch 1 example_config (first_then 3 Crashed Passed)
           twenty_plugins fresh))) ! 4) =
     [''Oblivion.esm'', ''Unofficial Patch.esp'', ''a02.esp'', ''a03.esp'']"
proof -
  have o: "batch_order example_config [''a02.esp''] [''a03.esp''] =
      [''Oblivion.esm'', ''Unofficial Patch.esp'', ''a02.esp'', ''a03.esp'']"
    by code_simp
  have "trials (fst (the (run_batch 1 example_config (first_then 3 Crashed Passed)
           twenty_plugins fresh))) ! 4 =
      \<lparr>level = Singleton, part = [''a03.esp''],
       order = batch_order example_config [''a02.esp''] [''a03.esp''], verdict = Passed\<rparr>"
    by (simp add: run_eval twenty_plugins_def)
  with o have r: "part (trials (fst (the (run_batch 1 example_config (first_then 3 Crashed Passed)
           twenty_plugins fresh))) ! 4) = [''a03.esp'']"
    "order (trials (fst (the (run_batch 1 example_config (first_then 3 Crashed Passed)
           twenty_plugins fresh))) ! 4) =
     [''Oblivion.esm'', ''Unofficial Patch.esp'', ''a02.esp'', ''a03.esp'']"
    by simp_all
  have h1: "\<forall>n ord. answer (first_then 3 Crashed Passed) n ord = Passed \<or>
             answer (first_then 3 Crashed Passed) n ord = Crashed"
    by (simp add: first_then_def)
  have h2: "answer (first_then 3 Crashed Passed) (length (trials fresh))
     (batch_order example_config (safe fresh) twenty_plugins) = Crashed"
    by (simp add: first_then_def fresh_def)
  have l: "length twenty_plugins = 20" by (simp add: twenty_plugins_def)
  have g: "get_batch_size 20 = 5" by (simp add: get_batch_size_def)
  have f: "trials fresh = []" "safe fresh = []" by (simp_all add: fresh_def)
  note t = run_batch_crashed_three_levels [OF h1 h2, of 0, unfolded l g f]
  from t have "length (sub_batches 5 twenty_plugins) = 4" by simp
  moreover from t this have "sub_batches 5 twenty_plugins ! 1 = take 5 (drop 5 twenty_plugins)"
    by simp
  moreover from t have "\<exists>s' ts. run_batch 1 example_config (first_then 3 Crashed Passed) twenty_plugins fresh =
              Some (s', Returned) \<and>
      trials s' = \<lparr>level = Batch, part = twenty_plugins,
                    order = batch_order example_config [] twenty_plugins, verdict = Crashed\<rparr> # ts \<and>
      chunk_trace example_config [] (sub_batches 5 twenty_plugins) ts"
    unfolding One_nat_def append_Nil by blast
  ultimately show ?thesis using h1 h2 r by blast
qed

text \<open>
  Counterexample to C1 as stated: a batch of twenty plugins crashes, and so does its
  first sub-batch of five. \<^verbatim>\<open>get_batch_size(5)\<close> is 2, so a recursive engine would try
  the first two plugins next; \<^verbatim>\<open>run_batch\<close> tries each of the five alone.
\<close>

theorem crashed_chunk_not_repartitioned:
  "\<not> repartitions_crashed_chunks
       (trials (fst (the (run_batch 1 example_config (first_then 3 Crashed Passed) twenty_plugins fresh)))) \<and>
   history (fst (the (run_batch 1 example_config (first_then 3 Crashed Passed) twenty_plugins fresh))) =
     [(Batch, twenty_plugins, Crashed),
      (SubBatch, [''a01.esp'', ''a02.esp'', ''a03.esp'', ''a04.esp'', ''a05.esp''], Crashed),
      (Singleton, [''a01.esp''], Crashed),
      (Singleton, [''a02.esp''], Passed),
      (Singleton, [''a03.esp''], Passed),
      (Singleton, [''a04.esp''], Passed),
      (Singleton, [''a05.esp''], Passed),
      (SubBatch, [''a06.esp'', ''a07.esp'', ''a08.esp'', ''a09.esp'', ''a10.esp''], Passed),
      (SubBatch, [''a11.esp'', ''a12.esp'', ''a13.esp'', ''a14.esp'', ''a15.esp''], Passed),
      (SubBatch, [''a16.esp'', ''a17.esp'', ''a18.esp'', ''a19.esp'', ''a20.esp''], Passed)]"
proof -
  define ts where
    "ts = trials (fst (the (run_batch 1 example_config (first_then 3 Crashed Passed) twenty_plugins fresh)))"
  have run: "map (\<lambda>t. (level t, part t, verdict t)) ts =
     [(Batch, twenty_plugins, Crashed),
      (SubBatch, [''a01.esp'', ''a02.esp'', ''a03.esp'', ''a04.esp'', ''a05.esp''], Crashed),
      (Singleton, [''a01.esp''], Crashed),
      (Singleton, [''a02.esp''], Passed),
      (Singleton, [''a03.esp''], Passed),
      (Singleton, [''a04.esp''], Passed),
      (Singleton, [''a05.esp''], Passed),
      (SubBatch, [''a06.esp'', ''a07.esp'', ''a08.esp'', ''a09.esp'', ''a10.esp''], Passed),
      (SubBatch, [''a11.esp'', ''a12.esp'', ''a13.esp'', ''a14.esp'', ''a15.esp''], Passed),
      (SubBatch, [''a16.esp'', ''a17.esp'', ''a18.esp'', ''a19.esp'', ''a20.esp''], Passed)]"
    unfolding ts_def by (simp add: run_eval twenty_plugins_def)
  have len: "length ts = 10"
    using arg_cong [OF run, of length] by simp
  have "map (\<lambda>t. (level t, part t, verdict t)) ts ! 1 = (level (ts ! 1), part (ts ! 1), verdict (ts ! 1))"
       "map (\<lambda>t. (level t, part t, verdict t)) ts ! 2 = (level (ts ! 2), part (ts ! 2), verdict (ts ! 2))"
    using len by simp_all
  with run have t1: "level (ts ! 1) = SubBatch" "verdict (ts ! 1) = Crashed"
      "part (ts ! 1) = [''a01.esp'', ''a02.esp'', ''a03.esp'', ''a04.esp'', ''a05.esp'']"
    and t2: "part (ts ! 2) = [''a01.esp'']"
    by simp_all
  have "\<not> repartitions_crashed_chunks ts"
  proof
    assume "repartitions_crashed_chunks ts"
    then have "level (ts ! 1) = SubBatch \<and> verdict (ts ! 1) = Crashed \<and> 2 \<le> length (part (ts ! 1)) \<longrightarrow>
        part (ts ! Suc 1) = take (get_batch_size (length (part (ts ! 1)))) (part (ts ! 1))"
      using len unfolding repartitions_crashed_chunks_def by simp
    with t1 t2 show False by (simp add: get_batch_size_def numeral_2_eq_2)
  qed
  with run show ?thesis unfolding ts_def history_def by blast
qed

subsection \<open>A batch that passes\<close>

text \<open>
  Claim C7. If the trial of baseline and batch passes, \<^verbatim>\<open>run_batch\<close> appends the batch
  to \<open>safe\<close> (and to \<open>tested\<close>) in its order and returns after that one trial, whatever
  the length of the batch; with an environment in which every trial passes, it returns
  with the whole batch in \<open>safe\<close> after one trial.
\<close>

theorem passed_batch_one_trial:
  "(answer e (length (trials s)) (batch_order c (safe s) batch) = Passed \<longrightarrow>
      run_batch (Suc fuel) c e batch s =
        Some (s\<lparr>safe := safe s @ batch, tested := tested s @ batch,
                trials := trials s @ [\<lparr>level = Batch, part = batch,
                   order = batch_order c (safe s) batch, verdict = Passed\<rparr>]\<rparr>, Returned)) \<and>
   ((\<forall>n ord. answer e n ord = Passed) \<longrightarrow>
      (\<exists>s'. run_batch (Suc fuel) c e batch s = Some (s', Returned) \<and>
            safe s' = safe s @ batch \<and> length (trials s') = Suc (length (trials s))))"
  by (simp add: attempt_def extend_safe_def)

text \<open>Witness for C7: twenty plugins that pass together.\<close>

theorem passed_batch_one_trial_witness:
  "answer (always Passed) (length (trials fresh))
     (batch_order example_config (safe fresh) twenty_plugins) = Passed \<and>
   (\<forall>n ord. answer (always Passed) n ord = Passed) \<and>
   safe (fst (the (run_batch 1 example_config (always Passed) twenty_plugins fresh))) = twenty_plugins \<and>
   length (trials (fst (the (run_batch 1 example_config (always Passed) twenty_plugins fresh)))) = 1"
  using passed_batch_one_trial [of "always Passed" fresh example_config twenty_plugins 0]
  by (simp add: always_def fresh_def)

subsection \<open>A pause that is resumed\<close>

text \<open>
  Claim C2 fails on the code. Five plugins: the batch crashes, its first sub-batch
  crashes, and the operator pauses the trial of the first plugin and resumes. The code
  sets \<^verbatim>\<open>one_crash = True\<close>: the plugin is in \<open>failed\<close> and \<open>tested\<close>, its only trial is
  the paused one, and the next trial is that of the second plugin.
\<close>

theorem resumed_pause_marks_plugin_failed:
  "run_batch 1 example_config (script [Crashed, Crashed, PausedResume] False) five_plugins fresh =
     Some (\<lparr>safe = [''a02.esp'', ''a03.esp'', ''a04.esp'', ''a05.esp''],
            tested = [''a01.esp'', ''a02.esp'', ''a03.esp'', ''a04.esp'', ''a05.esp''],
            failed = [''a01.esp''],
            remaining = [],
            trials =
              [\<lparr>level = Batch, part = five_plugins,
                 order = batch_order example_config [] five_plugins, verdict = Crashed\<rparr>,
               \<lparr>level = SubBatch, part = [''a01.esp'', ''a02.esp''],
                 order = batch_order example_config [] [''a01.esp'', ''a02.esp''], verdict = Crashed\<rparr>,
               \<lparr>level = Singleton, part = [''a01.esp''],
                 order = batch_order example_config [] [''a01.esp''], verdict = PausedResume\<rparr>,
               \<lparr>level = Singleton, part = [''a02.esp''],
                 order = batch_order example_config [] [''a02.esp''], verdict = Passed\<rparr>,
               \<lparr>level = SubBatch, part = [''a03.esp'', ''a04.esp''],
                 order = batch_order example_config [''a02.esp''] [''a03.esp'', ''a04.esp''],
                 verdict = Passed\<rparr>,
               \<lparr>level = SubBatch, part = [''a05.esp''],
                 order = batch_order example_config [''a02.esp'', ''a03.esp'', ''a04.esp''] [''a05.esp''],
                 verdict = Passed\<rparr>]\<rparr>, Returned)"
  by (simp add: run_eval five_plugins_def)

subsection \<open>A launch that fails\<close>

text \<open>
  Claim C3, as the code has it. A trial of \<^verbatim>\<open>run_batch\<close> whose launch fails classifies
  nothing: \<open>safe\<close>, \<open>failed\<close> and \<open>tested\<close> stay as they were, and the loop of that level
  is left. At the batch level \<^verbatim>\<open>run_batch\<close> returns; at the sub-batch level the
  remaining sub-batches are not tried and \<^verbatim>\<open>run_batch\<close> returns; at the level of single
  plugins the remaining plugins of the sub-batch are not tried and the next sub-batch
  is.
\<close>

theorem launch_failure_leaves_loop:
  "(answer e (length (trials s)) (batch_order c (safe s) batch) = LaunchFailed \<longrightarrow>
      run_batch (Suc fuel) c e batch s =
        Some (s\<lparr>trials := trials s @ [\<lparr>level = Batch, part = batch,
                   order = batch_order c (safe s) batch, verdict = LaunchFailed\<rparr>]\<rparr>, Returned)) \<and>
   (answer e (length (trials s)) (batch_order c (safe s) sub) = LaunchFailed \<longrightarrow>
      sub_loop c e (sub # rest) s =
        (s\<lparr>trials := trials s @ [\<lparr>level = SubBatch, part = sub,
                   order = batch_order c (safe s) sub, verdict = LaunchFailed\<rparr>]\<rparr>, Returned)) \<and>
   (answer e (length (trials s)) (batch_order c (safe s) [plugin]) = LaunchFailed \<longrightarrow>
      single_loop c e (plugin # others) s =
        (s\<lparr>trials := trials s @ [\<lparr>level = Singleton, part = [plugin],
                   order = batch_order c (safe s) [plugin], verdict = LaunchFailed\<rparr>]\<rparr>, Returned)) \<and>
   (answer e (length (trials s)) (batch_order c (safe s) (p # q # ps)) = Crashed \<and>
    answer e (Suc (length (trials s))) (batch_order c (safe s) [p]) = LaunchFailed \<longrightarrow>
      sub_loop c e ((p # q # ps) # rest) s =
        sub_loop c e rest
          (s\<lparr>trials := trials s @
               [\<lparr>level = SubBatch, part = p # q # ps,
                  order = batch_order c (safe s) (p # q # ps), verdict = Crashed\<rparr>,
                \<lparr>level = Singleton, part = [p],
                  order = batch_order c (safe s) [p], verdict = LaunchFailed\<rparr>]\<rparr>))"
  by (simp add: attempt_def)

text \<open>
  Witness for C3: a launch that fails at once, at each of the three levels, and a launch
  that fails for the first plugin of a crashed sub-batch.
\<close>

theorem launch_failure_leaves_loop_witness:
  "answer (always LaunchFailed) (length (trials fresh))
     (batch_order example_config (safe fresh) five_plugins) = LaunchFailed \<and>
   run_batch 1 example_config (always LaunchFailed) five_plugins fresh =
     Some (fresh\<lparr>trials := [\<lparr>level = Batch, part = five_plugins,
                   order = batch_order example_config [] five_plugins,
                   verdict = LaunchFailed\<rparr>]\<rparr>, Returned) \<and>
   sub_loop example_config (always LaunchFailed) [five_plugins, twenty_plugins] fresh =
     (fresh\<lparr>trials := [\<lparr>level = SubBatch, part = five_plugins,
                   order = batch_order example_config [] five_plugins,
                   verdict = LaunchFailed\<rparr>]\<rparr>, Returned) \<and>
   single_loop example_config (always LaunchFailed) [''a01.esp'', ''a02.esp''] fresh =
     (fresh\<lparr>trials := [\<lparr>level = Singleton, part = [''a01.esp''],
                   order = batch_order example_config [] [''a01.esp''],
                   verdict = LaunchFailed\<rparr>]\<rparr>, Returned) \<and>
   answer (first_then 1 Crashed LaunchFailed) 0
     (batch_order example_config [] [''a01.esp'', ''a02.esp'']) = Crashed \<and>
   answer (first_then 1 Crashed LaunchFailed) 1
     (batch_order example_config [] [''a01.esp'']) = LaunchFailed \<and>
   safe (fst (sub_loop example_config (first_then 1 Crashed LaunchFailed)
                [[''a01.esp'', ''a02.esp'']] fresh)) = [] \<and>
   failed (fst (sub_loop example_config (first_then 1 Crashed LaunchFailed)
                [[''a01.esp'', ''a02.esp'']] fresh)) = []"
  using launch_failure_leaves_loop [where e = "always LaunchFailed" and s = fresh
      and c = example_config and batch = five_plugins and sub = five_plugins
      and rest = "[twenty_plugins]" and plugin = "''a01.esp''" and others = "[''a02.esp'']"
      and p = "''a01.esp''" and q = "''a02.esp''" and ps = "[]" and fuel = 0]
    launch_failure_leaves_loop [where e = "first_then 1 Crashed LaunchFailed" and s = fresh
      and c = example_config and batch = five_plugins and sub = five_plugins
      and rest = "[]" and plugin = "''a01.esp''" and others = "[]"
      and p = "''a01.esp''" and q = "''a02.esp''" and ps = "[]" and fuel = 0]
  by (simp add: always_def first_then_def fresh_def)

text \<open>
  Counterexample to C3 as stated: the launch of the batch trial fails. The trial is not
  taken for a crash (no sub-batch is tried), and \<^verbatim>\<open>run_batch\<close> returns with the five
  plugins in none of \<open>safe\<close>, \<open>failed\<close> and \<open>tested\<close>.
\<close>

theorem launch_failure_not_crashed:
  "run_batch 1 example_config (always LaunchFailed) five_plugins fresh =
     Some (\<lparr>safe = [], tested = [], failed = [], remaining = [],
            trials = [\<lparr>level = Batch, part = five_plugins,
                        order = batch_order example_config [] five_plugins,
                        verdict = LaunchFailed\<rparr>]\<rparr>, Returned)"
  by (simp add: run_eval)

subsection \<open>The configured plugin lists\<close>

lemma split_comma_not_Nil [simp]: "split_comma raw \<noteq> []"
  by (induction raw) (auto split: list.splits)

lemma join_split_comma: "join_comma (split_comma raw) = raw"
proof (induction raw)
  case Nil
  show ?case by simp
next
  case (Cons ch cs)
  obtain w ws where sp: "split_comma cs = w # ws"
    using split_comma_not_Nil [of cs] by (cases "split_comma cs") auto
  with Cons show ?case by (cases ws) auto
qed

lemma split_comma_chars: "(\<Union>p \<in> set (split_comma raw). set p) = set raw - {CHR '',''}"
proof (induction raw)
  case Nil
  show ?case by simp
next
  case (Cons ch cs)
  obtain w ws where sp: "split_comma cs = w # ws"
    using split_comma_not_Nil [of cs] by (cases "split_comma cs") auto
  with Cons show ?case by auto
qed

lemma strip_empty_iff: "strip p = [] \<longleftrightarrow> (\<forall>ch \<in> set p. isspace ch)"
proof
  assume e: "strip p = []"
  then have all: "\<forall>ch \<in> set (dropWhile isspace p). isspace ch"
    by (simp add: strip_def rstrip_def lstrip_def dropWhile_eq_Nil_conv)
  have "dropWhile isspace p = []"
  proof (rule ccontr)
    assume ne: "dropWhile isspace p \<noteq> []"
    then have "\<not> isspace (hd (dropWhile isspace p))" by (rule hd_dropWhile)
    moreover from ne have "hd (dropWhile isspace p) \<in> set (dropWhile isspace p)" by simp
    ultimately show False using all by blast
  qed
  then show "\<forall>ch \<in> set p. isspace ch" by (simp add: dropWhile_eq_Nil_conv)
next
  assume "\<forall>ch \<in> set p. isspace ch"
  then show "strip p = []"
    by (auto simp add: strip_def rstrip_def lstrip_def dest: set_dropWhileD)
qed

lemma set_strip: "set (strip p) \<subseteq> set p"
proof -
  have "set (dropWhile isspace (rev (dropWhile isspace p))) \<subseteq> set (rev (dropWhile isspace p))"
    by (auto dest: set_dropWhileD)
  also have "\<dots> \<subseteq> set p" by (auto dest: set_dropWhileD)
  finally show ?thesis by (simp add: strip_def rstrip_def lstrip_def)
qed

lemma strip_ends:
  assumes "strip p \<noteq> []"
  shows "\<not> isspace (hd (strip p))" "\<not> isspace (last (strip p))"
proof -
  let ?q = "dropWhile isspace p"
  let ?r = "dropWhile isspace (rev ?q)"
  have s: "strip p = rev ?r" by (simp add: strip_def rstrip_def lstrip_def)
  with assms have r: "?r \<noteq> []" by simp
  then have "\<not> isspace (hd ?r)" by (rule hd_dropWhile)
  with r s show "\<not> isspace (last (strip p))" by (simp add: last_rev)
  have "?q = rev (takeWhile isspace (rev ?q) @ ?r)"
    by (simp only: takeWhile_dropWhile_id rev_rev_ident)
  then have q: "?q = rev ?r @ rev (takeWhile isspace (rev ?q))"
    by (simp only: rev_append)
  from r have "rev ?r \<noteq> []" by simp
  with q have h: "hd ?q = hd (rev ?r)" by (metis hd_append2)
  from r have "?q \<noteq> []" by (auto dest: set_dropWhileD)
  then have "\<not> isspace (hd ?q)" by (rule hd_dropWhile)
  with h s show "\<not> isspace (hd (strip p))" by simp
qed

lemma parse_empty_iff:
  "parse_plugin_list raw = [] \<longleftrightarrow> (\<forall>ch \<in> set raw. ch = CHR '','' \<or> isspace ch)"
proof -
  have "parse_plugin_list raw = [] \<longleftrightarrow> (\<forall>p \<in> set (split_comma raw). strip p = [])"
    by (auto simp add: parse_plugin_list_def filter_empty_conv)
  also have "\<dots> \<longleftrightarrow> (\<forall>ch \<in> (\<Union>p \<in> set (split_comma raw). set p). isspace ch)"
    by (auto simp add: strip_empty_iff)
  also have "\<dots> \<longleftrightarrow> (\<forall>ch \<in> set raw. ch = CHR '','' \<or> isspace ch)"
    unfolding split_comma_chars by auto
  finally show ?thesis .
qed

text \<open>
  Claim C10. If the configured value is empty or holds only whitespace and commas,
  \<^verbatim>\<open>parse_plugin_list\<close> returns the empty list and the default list is used; otherwise
  the parsed list is used, so neither configured list is ever empty. The parsed entries
  are the pieces between the commas, stripped, without the pieces that strip to nothing:
  each entry is non-empty, starts and ends with a character that is not whitespace, and
  holds no comma.
\<close>

theorem parse_plugin_list_or_default:
  "((\<forall>ch \<in> set raw. ch = CHR '','' \<or> isspace ch) \<longrightarrow>
      parse_plugin_list raw = [] \<and> configured_required raw = default_required \<and>
      configured_optional raw = default_optional) \<and>
   (\<not> (\<forall>ch \<in> set raw. ch = CHR '','' \<or> isspace ch) \<longrightarrow>
      parse_plugin_list raw \<noteq> [] \<and> configured_required raw = parse_plugin_list raw \<and>
      configured_optional raw = parse_plugin_list raw) \<and>
   configured_required raw \<noteq> [] \<and> configured_optional raw \<noteq> [] \<and>
   join_comma (split_comma raw) = raw \<and>
   parse_plugin_list raw = map strip (filter (\<lambda>p. strip p \<noteq> []) (split_comma raw)) \<and>
   (\<forall>p \<in> set (parse_plugin_list raw).
      p \<noteq> [] \<and> \<not> isspace (hd p) \<and> \<not> isspace (last p) \<and> CHR '','' \<notin> set p)"
proof -
  have ends: "\<forall>p \<in> set (parse_plugin_list raw).
      p \<noteq> [] \<and> \<not> isspace (hd p) \<and> \<not> isspace (last p) \<and> CHR '','' \<notin> set p"
  proof
    fix p assume "p \<in> set (parse_plugin_list raw)"
    then obtain q where q: "q \<in> set (split_comma raw)" "strip q \<noteq> []" "p = strip q"
      by (auto simp add: parse_plugin_list_def)
    from q(1) have "set q \<subseteq> set raw - {CHR '',''}" using split_comma_chars [of raw] by blast
    with set_strip [of q] have "CHR '','' \<notin> set (strip q)" by blast
    with q strip_ends [of q] show "p \<noteq> [] \<and> \<not> isspace (hd p) \<and> \<not> isspace (last p) \<and> CHR '','' \<notin> set p"
      by simp
  qed
  have d: "default_required \<noteq> []" "default_optional \<noteq> []"
    by (simp_all add: default_required_def default_optional_def)
  have def: "parse_plugin_list raw = map strip (filter (\<lambda>p. strip p \<noteq> []) (split_comma raw))"
    by (simp add: parse_plugin_list_def)
  have "configured_required raw \<noteq> []" "configured_optional raw \<noteq> []"
    using d by (simp_all add: configured_required_def configured_optional_def or_default_def)
  moreover have "(\<forall>ch \<in> set raw. ch = CHR '','' \<or> isspace ch) \<longrightarrow>
      parse_plugin_list raw = [] \<and> configured_required raw = default_required \<and>
      configured_optional raw = default_optional"
    using parse_empty_iff [of raw]
    by (auto simp add: configured_required_def configured_optional_def or_default_def)
  moreover have "\<not> (\<forall>ch \<in> set raw. ch = CHR '','' \<or> isspace ch) \<longrightarrow>
      parse_plugin_list raw \<noteq> [] \<and> configured_required raw = parse_plugin_list raw \<and>
      configured_optional raw = parse_plugin_list raw"
    using parse_empty_iff [of raw]
    by (auto simp add: configured_required_def configured_optional_def or_default_def)
  ultimately show ?thesis
    using ends def join_split_comma [of raw] by blast
qed


text \<open>
  Witness for C10: a value of blanks and commas, a value of a no-break space, a comma and
  a next-line character, and a value with two entries.
\<close>

theorem parse_plugin_list_or_default_witness:
  "parse_plugin_list '' , ,'' = [] \<and> configured_required '' , ,'' = default_required \<and>
   configured_optional '' , ,'' = default_optional \<and>
   parse_plugin_list [CHR 0xA0, CHR '','', CHR 0x85] = [] \<and>
   configured_required [CHR 0xA0, CHR '','', CHR 0x85] = default_required \<and>
   configured_required '' A.esp, B b.esp ,, '' = [''A.esp'', ''B b.esp''] \<and>
   configured_optional '' A.esp, B b.esp ,, '' = [''A.esp'', ''B b.esp'']"
proof -
  have h1: "\<forall>ch \<in> set '' , ,''. ch = CHR '','' \<or> isspace ch"
    by (simp add: isspace_def)
  have h2: "\<not> (\<forall>ch \<in> set '' A.esp, B b.esp ,, ''. ch = CHR '','' \<or> isspace ch)"
    by (simp add: isspace_def)
  have p2: "parse_plugin_list '' A.esp, B b.esp ,, '' = [''A.esp'', ''B b.esp'']"
    by code_simp
  have h3: "\<forall>ch \<in> set [CHR 0xA0, CHR '','', CHR 0x85]. ch = CHR '','' \<or> isspace ch"
    by (simp add: isspace_def)
  note t3 = parse_plugin_list_or_default [of "[CHR 0xA0, CHR '','', CHR 0x85]"]
  from t3 h3 have n: "parse_plugin_list [CHR 0xA0, CHR '','', CHR 0x85] = []"
    "configured_required [CHR 0xA0, CHR '','', CHR 0x85] = default_required"
    by blast+
  note t1 = parse_plugin_list_or_default [of "'' , ,''"]
  note t2 = parse_plugin_list_or_default [of "'' A.esp, B b.esp ,, ''"]
  from t1 h1 have "parse_plugin_list '' , ,'' = []" "configured_required '' , ,'' = default_required"
    "configured_optional '' , ,'' = default_optional"
    by blast+
  moreover from t2 h2
  have "configured_required '' A.esp, B b.esp ,, '' = parse_plugin_list '' A.esp, B b.esp ,, ''"
    "configured_optional '' A.esp, B b.esp ,, '' = parse_plugin_list '' A.esp, B b.esp ,, ''"
    by blast+
  ultimately show ?thesis using p2 n by simp
qed

subsection \<open>Turbo mode classifies every candidate\<close>

lemma candidates_ok_cong:
  "safe s1 = safe s \<Longrightarrow> tested s1 = tested s \<Longrightarrow> failed s1 = failed s \<Longrightarrow>
   remaining s1 = remaining s \<Longrightarrow> candidates_ok c C s1 = candidates_ok c C s"
  by (simp add: candidates_ok_def)

lemma unclassified_cong:
  "safe s1 = safe s \<Longrightarrow> failed s1 = failed s \<Longrightarrow> unclassified ps s1 = unclassified ps s"
  by (simp add: unclassified_def)

lemma set_append_new [simp]: "set (append_new p xs) = insert p (set xs)"
  by (auto simp add: append_new_def)

lemma distinct_append_new [simp]: "distinct (append_new p xs) = distinct xs"
  by (auto simp add: append_new_def)

lemma candidates_ok_mark_safe:
  "candidates_ok c C s \<Longrightarrow> p \<in> C \<Longrightarrow> p \<notin> set (failed s) \<Longrightarrow> candidates_ok c C (mark_safe p s)"
  by (auto simp add: candidates_ok_def)

lemma candidates_ok_mark_failed:
  "candidates_ok c C s \<Longrightarrow> p \<in> C \<Longrightarrow> p \<notin> set (safe s) \<Longrightarrow> candidates_ok c C (mark_failed p s)"
  by (auto simp add: candidates_ok_def)

lemma mark_all_safe_Nil [simp]: "mark_all_safe [] s = s"
  by (simp add: mark_all_safe_def)

lemma mark_all_safe_Cons [simp]: "mark_all_safe (p # ps) s = mark_all_safe ps (mark_safe p s)"
  by (simp add: mark_all_safe_def)

lemma mark_all_safe_fields [simp]:
  "failed (mark_all_safe ps s) = failed s"
  "remaining (mark_all_safe ps s) = remaining s"
  "trials (mark_all_safe ps s) = trials s"
  "set (safe (mark_all_safe ps s)) = set (safe s) \<union> set ps"
  "set (tested (mark_all_safe ps s)) = set (tested s) \<union> set ps"
  by (induction ps arbitrary: s; auto)+

lemma candidates_ok_mark_all_safe:
  "candidates_ok c C s \<Longrightarrow> set ps \<subseteq> C \<Longrightarrow> set ps \<inter> set (failed s) = {} \<Longrightarrow>
   candidates_ok c C (mark_all_safe ps s)"
proof (induction ps arbitrary: s)
  case Nil
  then show ?case by simp
next
  case (Cons p ps)
  from Cons.prems have "candidates_ok c C (mark_safe p s)"
    by (auto intro: candidates_ok_mark_safe)
  with Cons.IH [of "mark_safe p s"] Cons.prems show ?case by simp
qed

lemma drop_safe_fields [simp]:
  "safe (drop_safe s) = safe s" "failed (drop_safe s) = failed s" "tested (drop_safe s) = tested s"
  "trials (drop_safe s) = trials s"
  "remaining (drop_safe s) = [p \<leftarrow> remaining s. p \<notin> set (safe s)]"
  by (simp_all add: drop_safe_def)

lemma drop_classified_fields [simp]:
  "safe (drop_classified s) = safe s" "failed (drop_classified s) = failed s"
  "tested (drop_classified s) = tested s" "trials (drop_classified s) = trials s"
  "remaining (drop_classified s) = [p \<leftarrow> remaining s. p \<notin> set (failed s) \<and> p \<notin> set (safe s)]"
  by (simp_all add: drop_classified_def turbo_remaining_def)

lemma candidates_ok_drop_safe: "candidates_ok c C s \<Longrightarrow> candidates_ok c C (drop_safe s)"
  by (auto simp add: candidates_ok_def)

lemma candidates_ok_drop_classified:
  "candidates_ok c C s \<Longrightarrow> candidates_ok c C (drop_classified s)"
  by (auto simp add: candidates_ok_def)

lemma mega_batch_ok:
  assumes "mega_batch c e s = (s', fl)" "candidates_ok c C s"
  shows "candidates_ok c C s' \<and> (fl = MegaDone \<longrightarrow> remaining s' = []) \<and> fl \<noteq> Break \<and>
      (fl = Next \<longrightarrow> safe s' = safe s \<and> failed s' = failed s \<and> remaining s' = remaining s)"
proof (cases "turbo_remaining s = []")
  case True
  with assms show ?thesis by (simp add: mega_batch_def)
next
  case False
  obtain v s1 where a: "attempt e Mega (turbo_remaining s) (turbo_order c (safe s) (turbo_remaining s)) s = (v, s1)"
    by (cases "attempt e Mega (turbo_remaining s) (turbo_order c (safe s) (turbo_remaining s)) s")
  note f = attempt_facts [OF a]
  from assms(2) f candidates_ok_cong [of s1 s c C] have ok1: "candidates_ok c C s1" by simp
  have sub: "set (turbo_remaining s) \<subseteq> C" "set (turbo_remaining s) \<inter> set (failed s1) = {}"
    using assms(2) f by (auto simp add: turbo_remaining_def candidates_ok_def)
  have ok2: "candidates_ok c C (mark_all_safe (turbo_remaining s) s1)"
    by (rule candidates_ok_mark_all_safe [OF ok1 sub])
  have cover: "C \<subseteq> set (safe s1) \<union> set (turbo_remaining s) \<union> set (failed s1)"
    using assms(2) f(2,4) by (auto simp add: candidates_ok_def turbo_remaining_def)
  have okp: "candidates_ok c C ((mark_all_safe (turbo_remaining s) s1)\<lparr>remaining := []\<rparr>)"
    using ok2 cover unfolding candidates_ok_def by simp
  show ?thesis
    using assms(1) False a ok1 okp f
    by (cases v) (auto simp add: mega_batch_def)
qed

lemma outcome_kinds:
  obtains (skip) "v = WriteFailed \<or> v = LaunchFailed" | (quit) "v = PausedExit"
  | (pass) "v = Passed" | (crash) "v = Crashed \<or> v = PausedResume"
  by (cases v) auto

lemma turbo_single_loop_ok:
  assumes "turbo_single_loop c e ps s = (s', fl)" "candidates_ok c C s" "unclassified ps s"
    "set ps \<subseteq> C"
  shows "candidates_ok c C s' \<and> (fl = MegaDone \<longrightarrow> remaining s' = []) \<and> fl \<noteq> Break \<and>
         (fl = Next \<longrightarrow> remaining s' = remaining s \<and>
            set (safe s') \<union> set (failed s') \<subseteq> set (safe s) \<union> set (failed s) \<union> set ps)"
  using assms
proof (induction ps arbitrary: s)
  case Nil
  then show ?case by auto
next
  case (Cons plugin rest)
  obtain v s1 where a: "attempt e Singleton [plugin] (turbo_order c (safe s) [plugin]) s = (v, s1)"
    by (cases "attempt e Singleton [plugin] (turbo_order c (safe s) [plugin]) s")
  note f = attempt_facts [OF a]
  from Cons.prems(2) f candidates_ok_cong [of s1 s c C] have ok1: "candidates_ok c C s1" by simp
  from Cons.prems(3,4) f have pl: "plugin \<in> C" "plugin \<notin> set (safe s1)" "plugin \<notin> set (failed s1)"
    and rest: "distinct rest" "plugin \<notin> set rest" "set rest \<subseteq> C"
       "set rest \<inter> (set (safe s1) \<union> set (failed s1)) = {}"
    by (auto simp add: unclassified_def)
  show ?case
  proof (cases v rule: outcome_kinds)
    case skip
    with a Cons.prems(1) have run: "turbo_single_loop c e rest s1 = (s', fl)" by auto
    from rest have "unclassified rest s1" by (simp add: unclassified_def)
    from Cons.IH [OF run ok1 this rest(3)] f show ?thesis by auto
  next
    case quit
    with a Cons.prems(1) have "s' = s1" "fl = Quit" by auto
    with ok1 show ?thesis by simp
  next
    case pass
    with a Cons.prems(1) have run: "turbo_single_loop c e rest (mark_safe plugin s1) = (s', fl)" by auto
    from ok1 pl have ok2: "candidates_ok c C (mark_safe plugin s1)" by (simp add: candidates_ok_mark_safe)
    from rest have "unclassified rest (mark_safe plugin s1)" by (auto simp add: unclassified_def)
    from Cons.IH [OF run ok2 this rest(3)] f show ?thesis by auto
  next
    case crash
    obtain s3 fl3 where m: "mega_batch c e (mark_failed plugin s1) = (s3, fl3)"
      by (cases "mega_batch c e (mark_failed plugin s1)")
    from ok1 pl have ok2: "candidates_ok c C (mark_failed plugin s1)" by (simp add: candidates_ok_mark_failed)
    note mb = mega_batch_ok [OF m ok2]
    show ?thesis
    proof (cases "fl3 = Next")
      case True
      with crash a m Cons.prems(1) have run: "turbo_single_loop c e rest s3 = (s', fl)" by auto
      from mb True have e3: "safe s3 = safe s1" "set (failed s3) = insert plugin (set (failed s1))"
        "remaining s3 = remaining s1" by simp_all
      from rest e3 have "unclassified rest s3" by (auto simp add: unclassified_def)
      from mb have ok3: "candidates_ok c C s3" by simp
      from Cons.IH [OF run ok3 \<open>unclassified rest s3\<close> rest(3)] f e3 show ?thesis by auto
    next
      case False
      with crash a m Cons.prems(1) have "s' = s3" "fl = fl3" by (auto split: flow.splits)
      with mb False show ?thesis by simp
    qed
  qed
qed

lemma turbo_sub_loop_ok:
  assumes "turbo_sub_loop c e chunks s = (s', fl)" "candidates_ok c C s"
    "unclassified (concat chunks) s" "set (concat chunks) \<subseteq> C" "unclassified (remaining s) s"
  shows "candidates_ok c C s' \<and> (fl = MegaDone \<longrightarrow> remaining s' = []) \<and> fl \<noteq> Break \<and>
         (fl = Next \<longrightarrow> unclassified (remaining s') s')"
  using assms
proof (induction chunks arbitrary: s)
  case Nil
  then show ?case by auto
next
  case (Cons sub rest)
  obtain v s1 where a: "attempt e SubBatch sub (turbo_order c (safe s) sub) s = (v, s1)"
    by (cases "attempt e SubBatch sub (turbo_order c (safe s) sub) s")
  note f = attempt_facts [OF a]
  from Cons.prems(2) f candidates_ok_cong [of s1 s c C] have ok1: "candidates_ok c C s1" by simp
  from Cons.prems(3,4) f have sub: "set sub \<subseteq> C" "unclassified sub s1"
    and rest: "distinct (concat rest)" "set sub \<inter> set (concat rest) = {}" "set (concat rest) \<subseteq> C"
       "set (concat rest) \<inter> (set (safe s1) \<union> set (failed s1)) = {}"
    by (auto simp add: unclassified_def)
  from Cons.prems(5) f have cl: "unclassified (remaining s1) s1" by (simp add: unclassified_def)
  show ?case
  proof (cases v rule: outcome_kinds)
    case skip
    with a Cons.prems(1) have run: "turbo_sub_loop c e rest s1 = (s', fl)" by auto
    from rest have "unclassified (concat rest) s1" by (simp add: unclassified_def)
    from Cons.IH [OF run ok1 this rest(3) cl] show ?thesis .
  next
    case quit
    with a Cons.prems(1) have "s' = s1" "fl = Quit" by auto
    with ok1 show ?thesis by simp
  next
    case pass
    let ?s2 = "drop_safe (mark_all_safe sub s1)"
    from pass a Cons.prems(1) have run: "turbo_sub_loop c e rest ?s2 = (s', fl)" by auto
    from sub have "set sub \<inter> set (failed s1) = {}" by (auto simp add: unclassified_def)
    with ok1 sub(1) have "candidates_ok c C (mark_all_safe sub s1)"
      by (simp add: candidates_ok_mark_all_safe)
    then have ok2: "candidates_ok c C ?s2" by (rule candidates_ok_drop_safe)
    from rest have u: "unclassified (concat rest) ?s2" by (auto simp add: unclassified_def)
    from cl have cl2: "unclassified (remaining ?s2) ?s2" by (auto simp add: unclassified_def)
    from Cons.IH [OF run ok2 u rest(3) cl2] show ?thesis .
  next
    case crash
    obtain s2 fl2 where sl: "turbo_single_loop c e sub s1 = (s2, fl2)"
      by (cases "turbo_single_loop c e sub s1")
    note so = turbo_single_loop_ok [OF sl ok1 sub(2,1)]
    show ?thesis
    proof (cases "fl2 = Next")
      case True
      with crash a sl Cons.prems(1) have run: "turbo_sub_loop c e rest (drop_classified s2) = (s', fl)"
        by auto
      from so have ok3: "candidates_ok c C (drop_classified s2)"
        by (simp add: candidates_ok_drop_classified)
      from so True have "set (safe s2) \<union> set (failed s2) \<subseteq> set (safe s1) \<union> set (failed s1) \<union> set sub"
        by simp
      with rest have u: "unclassified (concat rest) (drop_classified s2)"
        unfolding unclassified_def drop_classified_fields by blast
      from so have "distinct (remaining s2)" by (simp add: candidates_ok_def)
      then have cl3: "unclassified (remaining (drop_classified s2)) (drop_classified s2)"
        by (auto simp add: unclassified_def)
      from Cons.IH [OF run ok3 u rest(3) cl3] show ?thesis .
    next
      case False
      with crash a sl Cons.prems(1) have "s' = s2" "fl = fl2" by (auto split: flow.splits)
      with so False show ?thesis by simp
    qed
  qed
qed

lemma set_slice_to: "set (slice_to n xs) \<subseteq> set xs"
  by (auto simp add: slice_to_def dest: in_set_takeD)

lemma distinct_slice_to: "distinct xs \<Longrightarrow> distinct (slice_to n xs)"
  by (simp add: slice_to_def)

lemma turbo_loop_ok:
  assumes "turbo_loop fuel c e s = Some (s', fl)" "candidates_ok c C s" "unclassified (remaining s) s"
  shows "candidates_ok c C s' \<and> (fl = Next \<or> fl = MegaDone \<longrightarrow> remaining s' = [])"
  using assms
proof (induction fuel arbitrary: s)
  case 0
  then show ?case by simp
next
  case (Suc fuel)
  show ?case
  proof (cases "remaining s = []")
    case True
    with Suc.prems show ?thesis by simp
  next
    case False
    let ?batch = "slice_to (BATCH_SIZE c) (remaining s)"
    obtain v s1 where a: "attempt e Batch ?batch (turbo_order c (safe s) ?batch) s = (v, s1)"
      by (cases "attempt e Batch ?batch (turbo_order c (safe s) ?batch) s")
    note f = attempt_facts [OF a]
    from Suc.prems(2) f candidates_ok_cong [of s1 s c C] have ok1: "candidates_ok c C s1" by simp
    from Suc.prems(3) f have cl: "unclassified (remaining s1) s1" by (simp add: unclassified_def)
    from Suc.prems(2,3) f set_slice_to [of "BATCH_SIZE c" "remaining s"]
    have b: "set ?batch \<subseteq> C" "unclassified ?batch s1"
      by (auto simp add: unclassified_def candidates_ok_def distinct_slice_to)
    show ?thesis
    proof (cases v)
      case WriteFailed
      with a False Suc.prems(1) have "s' = s1" "fl = Break" by (auto simp add: Let_def)
      with ok1 show ?thesis by simp
    next
      case LaunchFailed
      with a False Suc.prems(1) have "s' = s1" "fl = Break" by (auto simp add: Let_def)
      with ok1 show ?thesis by simp
    next
      case PausedExit
      with a False Suc.prems(1) have "s' = s1" "fl = Quit" by (auto simp add: Let_def)
      with ok1 show ?thesis by simp
    next
      case PausedResume
      with a False Suc.prems(1) have run: "turbo_loop fuel c e s1 = Some (s', fl)"
        by (auto simp add: Let_def)
      from Suc.IH [OF run ok1 cl] show ?thesis .
    next
      case Passed
      let ?s2 = "drop_safe (mark_all_safe ?batch s1)"
      from Passed a False Suc.prems(1) have run: "turbo_loop fuel c e ?s2 = Some (s', fl)"
        by (auto simp add: Let_def)
      from b have "set ?batch \<inter> set (failed s1) = {}" by (auto simp add: unclassified_def)
      with ok1 b(1) have "candidates_ok c C (mark_all_safe ?batch s1)"
        by (simp add: candidates_ok_mark_all_safe)
      then have ok2: "candidates_ok c C ?s2" by (rule candidates_ok_drop_safe)
      from cl have cl2: "unclassified (remaining ?s2) ?s2" by (auto simp add: unclassified_def)
      from Suc.IH [OF run ok2 cl2] show ?thesis .
    next
      case Crashed
      let ?chunks = "sub_batches (get_batch_size (length ?batch)) ?batch"
      obtain s2 fl2 where sl: "turbo_sub_loop c e ?chunks s1 = (s2, fl2)"
        by (cases "turbo_sub_loop c e ?chunks s1")
      have cc: "concat ?chunks = ?batch" by (simp add: concat_sub_batches get_batch_size_pos)
      from b cc have "unclassified (concat ?chunks) s1" "set (concat ?chunks) \<subseteq> C" by simp_all
      note so = turbo_sub_loop_ok [OF sl ok1 this cl]
      show ?thesis
      proof (cases "fl2 = Next")
        case True
        with Crashed a sl False Suc.prems(1) have run: "turbo_loop fuel c e s2 = Some (s', fl)"
          by (auto simp add: Let_def)
        from so True have "candidates_ok c C s2" "unclassified (remaining s2) s2" by simp_all
        from Suc.IH [OF run this] show ?thesis .
      next
        case nn: False
        with Crashed a sl False Suc.prems(1) have "s' = s2" "fl = fl2"
          by (auto simp add: Let_def split: flow.splits)
        with so nn show ?thesis by (cases fl2) simp_all
      qed
    qed
  qed
qed

lemma recheck_one_cases:
  assumes "recheck_one c e p (rf, s) = ((rf1, s1), st)"
  shows "tested s1 = tested s \<and> failed s1 = failed s \<and> remaining s1 = remaining s \<and>
         ((safe s1 = safe s @ [p] \<and> rf1 = rf \<and> st = Returned) \<or>
          (safe s1 = safe s \<and> rf1 = rf @ [p] \<and> st = Returned) \<or>
          (safe s1 = safe s \<and> rf1 = rf \<and> st = Exited))"
proof -
  obtain v s0 where a: "attempt e Recheck [p] (recheck_order c (safe s) p) s = (v, s0)"
    by (cases "attempt e Recheck [p] (recheck_order c (safe s) p) s")
  note f = attempt_facts [OF a]
  from assms a f show ?thesis
    by (cases v) (auto simp add: recheck_one_def)
qed

lemma recheck_loop_ok:
  assumes "recheck_loop c e ps (rf, s) = ((rf', s'), st)" "distinct ps"
  shows "\<exists>mig kept. safe s' = safe s @ mig \<and> rf' = rf @ kept \<and> tested s' = tested s \<and>
           failed s' = failed s \<and> remaining s' = remaining s \<and>
           distinct mig \<and> distinct kept \<and> set mig \<inter> set kept = {} \<and>
           set mig \<union> set kept \<subseteq> set ps \<and> (st = Returned \<longrightarrow> set mig \<union> set kept = set ps)"
  using assms
proof (induction ps arbitrary: rf s)
  case Nil
  then show ?case by auto
next
  case (Cons p ps)
  obtain rf1 s1 st1 where r: "recheck_one c e p (rf, s) = ((rf1, s1), st1)"
    by (cases "recheck_one c e p (rf, s)") auto
  note rc = recheck_one_cases [OF r]
  show ?case
  proof (cases st1)
    case Exited
    with r Cons.prems(1) have "rf' = rf1" "s' = s1" "st = Exited" by auto
    with rc Exited show ?thesis by auto
  next
    case Returned
    with r Cons.prems(1) have run: "recheck_loop c e ps (rf1, s1) = ((rf', s'), st)" by auto
    from Cons.prems(2) have "distinct ps" by simp
    from Cons.IH [OF run this] obtain mig kept where
      h: "safe s' = safe s1 @ mig" "rf' = rf1 @ kept" "tested s' = tested s1"
         "failed s' = failed s1" "remaining s' = remaining s1"
         "distinct mig" "distinct kept" "set mig \<inter> set kept = {}"
         "set mig \<union> set kept \<subseteq> set ps" "st = Returned \<longrightarrow> set mig \<union> set kept = set ps"
      by blast
    from rc Returned consider (m) "safe s1 = safe s @ [p]" "rf1 = rf" | (k) "safe s1 = safe s" "rf1 = rf @ [p]"
      by auto
    then show ?thesis
    proof cases
      case m
      have "safe s' = safe s @ (p # mig) \<and> rf' = rf @ kept \<and> tested s' = tested s \<and>
           failed s' = failed s \<and> remaining s' = remaining s \<and>
           distinct (p # mig) \<and> distinct kept \<and> set (p # mig) \<inter> set kept = {} \<and>
           set (p # mig) \<union> set kept \<subseteq> set (p # ps) \<and>
           (st = Returned \<longrightarrow> set (p # mig) \<union> set kept = set (p # ps))"
        using h m rc Cons.prems(2) by auto
      then show ?thesis by blast
    next
      case k
      have "safe s' = safe s @ mig \<and> rf' = rf @ (p # kept) \<and> tested s' = tested s \<and>
           failed s' = failed s \<and> remaining s' = remaining s \<and>
           distinct mig \<and> distinct (p # kept) \<and> set mig \<inter> set (p # kept) = {} \<and>
           set mig \<union> set (p # kept) \<subseteq> set (p # ps) \<and>
           (st = Returned \<longrightarrow> set mig \<union> set (p # kept) = set (p # ps))"
        using h k rc Cons.prems(2) by auto
      then show ?thesis by blast
    qed
  qed
qed

lemma post_pass_ok:
  assumes "post_pass c e s = (s', Returned)" "candidates_ok c C s"
  shows "candidates_ok c C s' \<and> remaining s' = remaining s"
proof (cases "failed s \<noteq> [] \<and> retest e")
  case False
  with assms show ?thesis by (auto simp add: post_pass_def)
next
  case True
  obtain rf' s1 st where r: "recheck_loop c e (failed s) ([], s) = ((rf', s1), st)"
    by (cases "recheck_loop c e (failed s) ([], s)") auto
  from assms(2) have d: "distinct (failed s)" by (simp add: candidates_ok_def)
  from recheck_loop_ok [OF r d] obtain mig kept where
    h: "safe s1 = safe s @ mig" "rf' = kept" "tested s1 = tested s"
       "failed s1 = failed s" "remaining s1 = remaining s"
       "distinct mig" "distinct kept" "set mig \<inter> set kept = {}"
       "st = Returned \<longrightarrow> set mig \<union> set kept = set (failed s)"
    by auto
  from True r assms(1) have st: "st = Returned" and s': "s' = s1\<lparr>failed := rf'\<rparr>"
    by (auto simp add: post_pass_def split: status.splits)
  from h st have part: "set mig \<union> set kept = set (failed s)" by simp
  have "candidates_ok c C s'"
    using assms(2) h(1-8) part unfolding candidates_ok_def s' by auto
  with s' h show ?thesis by simp
qed

lemma seed_safe_tested:
  "safe s = tested s \<Longrightarrow> distinct (safe s) \<Longrightarrow>
   safe (mark_all_safe ps s) = tested (mark_all_safe ps s) \<and> distinct (safe (mark_all_safe ps s))"
proof (induction ps arbitrary: s)
  case Nil
  then show ?case by simp
next
  case (Cons p ps)
  from Cons.prems have "safe (mark_safe p s) = tested (mark_safe p s)" "distinct (safe (mark_safe p s))"
    by simp_all
  from Cons.IH [OF this] show ?case unfolding mark_all_safe_Cons .
qed

lemma turbo_start_ok:
  assumes "distinct (to_test @ patch_plugins)"
    and "set (to_test @ patch_plugins) \<inter> set (REQUIRED_PLUGINS c @ OPTIONAL_PATCHES c) = {}"
  shows "candidates_ok c (set (to_test @ patch_plugins)) (turbo_start c to_test patch_plugins [])"
    and "unclassified (remaining (turbo_start c to_test patch_plugins []))
           (turbo_start c to_test patch_plugins [])"
proof -
  let ?s0 = "\<lparr>safe = [], tested = [], failed = [], remaining = to_test @ patch_plugins, trials = []\<rparr>"
  have "safe ?s0 = tested ?s0" "distinct (safe ?s0)" by simp_all
  from seed_safe_tested [OF this, of "REQUIRED_PLUGINS c @ OPTIONAL_PATCHES c"]
  have st: "safe (turbo_start c to_test patch_plugins []) = tested (turbo_start c to_test patch_plugins [])"
    "distinct (safe (turbo_start c to_test patch_plugins []))"
    unfolding turbo_start_def by blast+
  have fields: "failed (turbo_start c to_test patch_plugins []) = []"
    "remaining (turbo_start c to_test patch_plugins []) = to_test @ patch_plugins"
    "set (safe (turbo_start c to_test patch_plugins [])) = set (REQUIRED_PLUGINS c @ OPTIONAL_PATCHES c)"
    by (simp_all add: turbo_start_def)
  from st fields assms show "candidates_ok c (set (to_test @ patch_plugins)) (turbo_start c to_test patch_plugins [])"
    unfolding candidates_ok_def by (simp add: st(1) [symmetric] del: set_append) 
  from fields assms show "unclassified (remaining (turbo_start c to_test patch_plugins []))
           (turbo_start c to_test patch_plugins [])"
    unfolding unclassified_def by (simp del: set_append)
qed

text \<open>
  Claim C6, as the code has it. Turbo mode puts the required and optional plugins into
  \<open>safe\<close> and \<open>tested\<close> before the first trial, so \<open>tested\<close> counts them too. For a run
  of turbo mode that returns after its \<^verbatim>\<open>while\<close> loop ran out of plugins or a mega batch
  passed (no \<^verbatim>\<open>break\<close> on a failed write or launch of a batch, no exit), with candidates
  that are distinct and not among the required and optional plugins: every candidate is
  safe or failed, none is both, and the number of safe plus failed plugins is the number of
  tested plugins, which is the number of distinct required and optional plugins plus the
  number of candidates.
\<close>

theorem turbo_conservation:
  assumes "turbo_batch_mode fuel c e to_test patch_plugins [] = Some (s', fl)"
    and "fl = Next \<or> fl = MegaDone"
    and "distinct (to_test @ patch_plugins)"
    and "set (to_test @ patch_plugins) \<inter> set (REQUIRED_PLUGINS c @ OPTIONAL_PATCHES c) = {}"
  shows "set (to_test @ patch_plugins) \<subseteq> set (safe s') \<union> set (failed s') \<and>
         set (safe s') \<inter> set (failed s') = {} \<and>
         length (safe s') + length (failed s') = length (tested s') \<and>
         length (tested s') =
           length (remdups (REQUIRED_PLUGINS c @ OPTIONAL_PATCHES c)) + length (to_test @ patch_plugins)"
proof -
  let ?C = "set (to_test @ patch_plugins)"
  let ?B = "set (REQUIRED_PLUGINS c @ OPTIONAL_PATCHES c)"
  let ?s0 = "turbo_start c to_test patch_plugins []"
  obtain s1 fl1 where l: "turbo_loop fuel c e ?s0 = Some (s1, fl1)"
    using assms(1) by (cases "turbo_loop fuel c e ?s0") (auto simp add: turbo_batch_mode_def)
  note lo = turbo_loop_ok [OF l turbo_start_ok [OF assms(3,4)]]
  obtain s2 st where p: "post_pass c e s1 = (s2, st)" by (cases "post_pass c e s1")
  from assms(1,2) l p have e: "s' = s2" "fl1 = fl" "st = Returned"
    by (auto simp add: turbo_batch_mode_def split: flow.splits status.splits)
  from post_pass_ok [OF p [unfolded e(3)]] lo e assms(2)
  have ok: "candidates_ok c ?C s'" and r: "remaining s' = []" by auto
  from ok r have cov: "?C \<subseteq> set (safe s') \<union> set (failed s')"
    and dis: "set (safe s') \<inter> set (failed s') = {}"
    and d: "distinct (safe s')" "distinct (failed s')" "distinct (tested s')"
    and t: "set (tested s') = set (safe s') \<union> set (failed s')"
    and b: "?B \<subseteq> set (safe s')" "set (failed s') \<subseteq> ?C" "set (safe s') \<subseteq> ?B \<union> ?C"
    unfolding candidates_ok_def by simp_all
  have "length (tested s') = card (set (safe s') \<union> set (failed s'))"
    using d(3) t by (metis distinct_card)
  also have "\<dots> = card (set (safe s')) + card (set (failed s'))"
    using dis by (simp add: card_Un_disjoint)
  also have "\<dots> = length (safe s') + length (failed s')"
    using d(1,2) by (simp add: distinct_card)
  finally have len: "length (safe s') + length (failed s') = length (tested s')" by simp
  from cov b t have "set (tested s') = ?B \<union> ?C" by blast
  with d(3) have "length (tested s') = card (?B \<union> ?C)" by (metis distinct_card)
  also have "\<dots> = card ?B + card ?C"
    using assms(4) by (simp add: card_Un_disjoint Int_commute del: set_append)
  also have "card ?B = length (remdups (REQUIRED_PLUGINS c @ OPTIONAL_PATCHES c))"
    by (simp only: length_remdups_card_conv)
  also have "card ?C = length (to_test @ patch_plugins)"
    using assms(3) by (rule distinct_card)
  finally show ?thesis using cov dis len by blast
qed

subsection \<open>What turbo mode adds to the safe list and to the history\<close>

lemma grows_refl: "fl \<noteq> MegaDone \<Longrightarrow> grows fl s s"
  by (simp add: grows_def mega_end_def no_mega_pass_def)

lemma grows_trans:
  assumes "grows Next s s1" "grows fl s1 s'"
  shows "grows fl s s'"
proof -
  from assms(1) obtain ts where a: "set (safe s) \<subseteq> set (safe s1)" "trials s1 = trials s @ ts"
    "no_mega_pass ts" by (auto simp add: grows_def mega_end_def)
  from assms(2) obtain us where b: "set (safe s1) \<subseteq> set (safe s')" "trials s' = trials s1 @ us"
    "mega_end fl us" by (auto simp add: grows_def)
  from a(3) b(3) have "mega_end fl (ts @ us)"
    by (auto simp add: mega_end_def no_mega_pass_def)
  with a b show ?thesis by (auto simp add: grows_def)
qed

lemma grows_attempt:
  assumes "attempt e lv ps ord s = (v, s1)" "lv \<noteq> Mega \<or> v \<noteq> Passed"
  shows "grows Next s s1"
  using attempt_facts [OF assms(1)] assms(2)
  by (auto simp add: grows_def mega_end_def no_mega_pass_def)

lemma grows_ledger:
  "trials s1 = trials s \<Longrightarrow> set (safe s) \<subseteq> set (safe s1) \<Longrightarrow> grows Next s s1"
  by (simp add: grows_def mega_end_def no_mega_pass_def)

lemma mega_batch_grows:
  assumes "mega_batch c e s = (s', fl)"
  shows "grows fl s s'"
proof (cases "turbo_remaining s = []")
  case True
  with assms show ?thesis by (auto simp add: mega_batch_def grows_refl)
next
  case False
  obtain v s1 where a: "attempt e Mega (turbo_remaining s) (turbo_order c (safe s) (turbo_remaining s)) s = (v, s1)"
    by (cases "attempt e Mega (turbo_remaining s) (turbo_order c (safe s) (turbo_remaining s)) s")
  note f = attempt_facts [OF a]
  show ?thesis
  proof (cases "v = Passed")
    case True
    with assms False a have "s' = (mark_all_safe (turbo_remaining s) s1)\<lparr>remaining := []\<rparr>" "fl = MegaDone"
      by (auto simp add: mega_batch_def)
    with f True show ?thesis
      by (auto simp add: grows_def mega_end_def no_mega_pass_def)
  next
    case nn: False
    with assms False a have "s' = s1" "fl \<noteq> MegaDone"
      by (cases v; auto simp add: mega_batch_def)+
    with grows_attempt [OF a] nn show ?thesis
      by (auto simp add: grows_def mega_end_def)
  qed
qed

lemma turbo_single_loop_grows:
  "turbo_single_loop c e ps s = (s', fl) \<Longrightarrow> grows fl s s'"
proof (induction ps arbitrary: s)
  case Nil
  then show ?case by (auto simp add: grows_refl)
next
  case (Cons plugin rest)
  obtain v s1 where a: "attempt e Singleton [plugin] (turbo_order c (safe s) [plugin]) s = (v, s1)"
    by (cases "attempt e Singleton [plugin] (turbo_order c (safe s) [plugin]) s")
  have g1: "grows Next s s1" by (rule grows_attempt [OF a]) simp
  show ?case
  proof (cases v rule: outcome_kinds)
    case skip
    with a Cons.prems have "turbo_single_loop c e rest s1 = (s', fl)" by auto
    from grows_trans [OF g1 Cons.IH [OF this]] show ?thesis .
  next
    case quit
    with a Cons.prems have "s' = s1" "fl = Quit" by auto
    with g1 show ?thesis by (simp add: grows_def mega_end_def)
  next
    case pass
    with a Cons.prems have run: "turbo_single_loop c e rest (mark_safe plugin s1) = (s', fl)" by auto
    have "grows Next s1 (mark_safe plugin s1)" by (rule grows_ledger) auto
    from grows_trans [OF grows_trans [OF g1 this] Cons.IH [OF run]] show ?thesis .
  next
    case crash
    obtain s3 fl3 where m: "mega_batch c e (mark_failed plugin s1) = (s3, fl3)"
      by (cases "mega_batch c e (mark_failed plugin s1)")
    have "grows Next s1 (mark_failed plugin s1)" by (rule grows_ledger) auto
    from grows_trans [OF grows_trans [OF g1 this] mega_batch_grows [OF m]]
    have g3: "grows fl3 s s3" .
    show ?thesis
    proof (cases "fl3 = Next")
      case True
      with crash a m Cons.prems have "turbo_single_loop c e rest s3 = (s', fl)" by auto
      from grows_trans [OF g3 [unfolded True] Cons.IH [OF this]] show ?thesis .
    next
      case False
      with crash a m Cons.prems have "s' = s3" "fl = fl3" by (auto split: flow.splits)
      with g3 show ?thesis by simp
    qed
  qed
qed

lemma turbo_sub_loop_grows:
  "turbo_sub_loop c e chunks s = (s', fl) \<Longrightarrow> grows fl s s'"
proof (induction chunks arbitrary: s)
  case Nil
  then show ?case by (auto simp add: grows_refl)
next
  case (Cons sub rest)
  obtain v s1 where a: "attempt e SubBatch sub (turbo_order c (safe s) sub) s = (v, s1)"
    by (cases "attempt e SubBatch sub (turbo_order c (safe s) sub) s")
  have g1: "grows Next s s1" by (rule grows_attempt [OF a]) simp
  show ?case
  proof (cases v rule: outcome_kinds)
    case skip
    with a Cons.prems have "turbo_sub_loop c e rest s1 = (s', fl)" by auto
    from grows_trans [OF g1 Cons.IH [OF this]] show ?thesis .
  next
    case quit
    with a Cons.prems have "s' = s1" "fl = Quit" by auto
    with g1 show ?thesis by (simp add: grows_def mega_end_def)
  next
    case pass
    with a Cons.prems have run: "turbo_sub_loop c e rest (drop_safe (mark_all_safe sub s1)) = (s', fl)"
      by auto
    have "grows Next s1 (drop_safe (mark_all_safe sub s1))" by (rule grows_ledger) auto
    from grows_trans [OF grows_trans [OF g1 this] Cons.IH [OF run]] show ?thesis .
  next
    case crash
    obtain s2 fl2 where sl: "turbo_single_loop c e sub s1 = (s2, fl2)"
      by (cases "turbo_single_loop c e sub s1")
    from grows_trans [OF g1 turbo_single_loop_grows [OF sl]] have g2: "grows fl2 s s2" .
    show ?thesis
    proof (cases "fl2 = Next")
      case True
      with crash a sl Cons.prems have run: "turbo_sub_loop c e rest (drop_classified s2) = (s', fl)"
        by auto
      have "grows Next s2 (drop_classified s2)" by (rule grows_ledger) auto
      from grows_trans [OF grows_trans [OF g2 [unfolded True] this] Cons.IH [OF run]] show ?thesis .
    next
      case False
      with crash a sl Cons.prems have "s' = s2" "fl = fl2" by (auto split: flow.splits)
      with g2 show ?thesis by simp
    qed
  qed
qed

lemma turbo_loop_grows:
  "turbo_loop fuel c e s = Some (s', fl) \<Longrightarrow> grows fl s s'"
proof (induction fuel arbitrary: s)
  case 0
  then show ?case by simp
next
  case (Suc fuel)
  show ?case
  proof (cases "remaining s = []")
    case True
    with Suc.prems show ?thesis by (auto simp add: grows_refl)
  next
    case False
    let ?batch = "slice_to (BATCH_SIZE c) (remaining s)"
    obtain v s1 where a: "attempt e Batch ?batch (turbo_order c (safe s) ?batch) s = (v, s1)"
      by (cases "attempt e Batch ?batch (turbo_order c (safe s) ?batch) s")
    have g1: "grows Next s s1" by (rule grows_attempt [OF a]) simp
    show ?thesis
    proof (cases v)
      case WriteFailed
      with a False Suc.prems have "s' = s1" "fl = Break" by (auto simp add: Let_def)
      with g1 show ?thesis by (simp add: grows_def mega_end_def)
    next
      case LaunchFailed
      with a False Suc.prems have "s' = s1" "fl = Break" by (auto simp add: Let_def)
      with g1 show ?thesis by (simp add: grows_def mega_end_def)
    next
      case PausedExit
      with a False Suc.prems have "s' = s1" "fl = Quit" by (auto simp add: Let_def)
      with g1 show ?thesis by (simp add: grows_def mega_end_def)
    next
      case PausedResume
      with a False Suc.prems have "turbo_loop fuel c e s1 = Some (s', fl)" by (auto simp add: Let_def)
      from grows_trans [OF g1 Suc.IH [OF this]] show ?thesis .
    next
      case Passed
      with a False Suc.prems
      have run: "turbo_loop fuel c e (drop_safe (mark_all_safe ?batch s1)) = Some (s', fl)"
        by (auto simp add: Let_def)
      have "grows Next s1 (drop_safe (mark_all_safe ?batch s1))" by (rule grows_ledger) auto
      from grows_trans [OF grows_trans [OF g1 this] Suc.IH [OF run]] show ?thesis .
    next
      case Crashed
      let ?chunks = "sub_batches (get_batch_size (length ?batch)) ?batch"
      obtain s2 fl2 where sl: "turbo_sub_loop c e ?chunks s1 = (s2, fl2)"
        by (cases "turbo_sub_loop c e ?chunks s1")
      from grows_trans [OF g1 turbo_sub_loop_grows [OF sl]] have g2: "grows fl2 s s2" .
      show ?thesis
      proof (cases "fl2 = Next")
        case True
        with Crashed a sl False Suc.prems have "turbo_loop fuel c e s2 = Some (s', fl)"
          by (auto simp add: Let_def)
        from grows_trans [OF g2 [unfolded True] Suc.IH [OF this]] show ?thesis .
      next
        case nn: False
        with Crashed a sl False Suc.prems have "s' = s2" "fl = fl2"
          by (auto simp add: Let_def split: flow.splits)
        with g2 show ?thesis by simp
      qed
    qed
  qed
qed

lemma recheck_loop_grows:
  "recheck_loop c e ps (rf, s) = ((rf', s'), st) \<Longrightarrow>
   set (safe s) \<subseteq> set (safe s') \<and> failed s' = failed s \<and>
   (\<exists>ts. trials s' = trials s @ ts \<and> (\<forall>t \<in> set ts. level t = Recheck))"
proof (induction ps arbitrary: rf s)
  case Nil
  then show ?case by auto
next
  case (Cons p ps)
  obtain v s0 where a: "attempt e Recheck [p] (recheck_order c (safe s) p) s = (v, s0)"
    by (cases "attempt e Recheck [p] (recheck_order c (safe s) p) s")
  note f = attempt_facts [OF a]
  obtain rf1 s1 st1 where r: "recheck_one c e p (rf, s) = ((rf1, s1), st1)"
    by (cases "recheck_one c e p (rf, s)") auto
  from r a f have one: "set (safe s) \<subseteq> set (safe s1)" "failed s1 = failed s"
    "trials s1 = trials s @ [\<lparr>level = Recheck, part = [p], order = recheck_order c (safe s) p, verdict = v\<rparr>]"
    by (cases v; auto simp add: recheck_one_def)+
  show ?case
  proof (cases st1)
    case Exited
    with r Cons.prems have "s' = s1" by auto
    with one show ?thesis by auto
  next
    case Returned
    with r Cons.prems have "recheck_loop c e ps (rf1, s1) = ((rf', s'), st)" by auto
    from Cons.IH [OF this] one show ?thesis by auto
  qed
qed

lemma post_pass_grows:
  assumes "post_pass c e s = (s', st)"
  shows "set (safe s) \<subseteq> set (safe s') \<and>
         (\<exists>ts. trials s' = trials s @ ts \<and> (\<forall>t \<in> set ts. level t = Recheck))"
proof (cases "failed s \<noteq> [] \<and> retest e")
  case False
  with assms show ?thesis by (auto simp add: post_pass_def)
next
  case True
  obtain rf' s1 st1 where r: "recheck_loop c e (failed s) ([], s) = ((rf', s1), st1)"
    by (cases "recheck_loop c e (failed s) ([], s)") auto
  from True r assms have "s' = s1\<lparr>failed := rf'\<rparr> \<or> s' = s1"
    by (cases st1) (auto simp add: post_pass_def)
  with recheck_loop_grows [OF r] show ?thesis by auto
qed

lemma turbo_batch_mode_grows:
  assumes "turbo_batch_mode fuel c e to_test patch_plugins safe0 = Some (s', fl)"
  shows "set (REQUIRED_PLUGINS c @ OPTIONAL_PATCHES c) \<subseteq> set (safe s') \<and>
         (\<exists>ts ms rs. trials s' = ts @ ms @ rs \<and> no_mega_pass ts \<and> (\<forall>t \<in> set rs. level t = Recheck) \<and>
            (ms = [] \<or> (\<exists>m. ms = [m] \<and> level m = Mega \<and> verdict m = Passed \<and> fl \<noteq> Next \<and> fl \<noteq> Break)))"
proof -
  let ?s0 = "turbo_start c to_test patch_plugins safe0"
  have s0: "set (REQUIRED_PLUGINS c @ OPTIONAL_PATCHES c) \<subseteq> set (safe ?s0)" "trials ?s0 = []"
    by (simp_all add: turbo_start_def)
  obtain s1 fl1 where l: "turbo_loop fuel c e ?s0 = Some (s1, fl1)"
    using assms by (cases "turbo_loop fuel c e ?s0") (auto simp add: turbo_batch_mode_def)
  from turbo_loop_grows [OF l] s0 obtain ts where
    g: "set (safe ?s0) \<subseteq> set (safe s1)" "trials s1 = ts" "mega_end fl1 ts"
    by (auto simp add: grows_def)
  from g(3) obtain us ms where sp: "ts = us @ ms" "no_mega_pass us"
    "ms = [] \<or> (\<exists>m. ms = [m] \<and> level m = Mega \<and> verdict m = Passed \<and> fl1 = MegaDone)"
    by (cases "fl1 = MegaDone") (auto simp add: mega_end_def)
  show ?thesis
  proof (cases "fl1 = Quit")
    case True
    with assms l have "s' = s1" by (auto simp add: turbo_batch_mode_def)
    with g s0 sp True have "set (REQUIRED_PLUGINS c @ OPTIONAL_PATCHES c) \<subseteq> set (safe s')"
      "trials s' = us @ ms @ []" "no_mega_pass us" "ms = []" by auto
    then show ?thesis by (metis empty_iff list.set(1))
  next
    case False
    obtain s2 st where p: "post_pass c e s1 = (s2, st)" by (cases "post_pass c e s1")
    from False assms l p have e: "s' = s2" "st = Returned \<longrightarrow> fl = fl1" "st = Exited \<longrightarrow> fl = Quit"
      by (cases fl1; cases st; auto simp add: turbo_batch_mode_def)+
    from post_pass_grows [OF p] obtain rs where
      pp: "set (safe s1) \<subseteq> set (safe s2)" "trials s2 = trials s1 @ rs" "\<forall>t \<in> set rs. level t = Recheck"
      by auto
    from e sp(3) have "ms = [] \<or> (\<exists>m. ms = [m] \<and> level m = Mega \<and> verdict m = Passed \<and> fl \<noteq> Next \<and> fl \<noteq> Break)"
      by (cases st) auto
    moreover from pp g sp e have "trials s' = us @ ms @ rs" by simp
    moreover from pp g s0 e have "set (REQUIRED_PLUGINS c @ OPTIONAL_PATCHES c) \<subseteq> set (safe s')" by blast
    ultimately show ?thesis using sp(2) pp(3) by blast
  qed
qed

lemmas turbo_eval = run_eval turbo_config_def five_plugins_def turbo_batch_mode_def turbo_start_def
  slice_to_def drop_safe_def drop_classified_def turbo_remaining_def mega_batch_def post_pass_def
  recheck_one_def Let_def numeral_2_eq_2 history_def

text \<open>
  Claim C9. Before the first trial of turbo mode every required and optional plugin is in
  \<open>safe\<close> and in \<open>tested\<close>, and whenever turbo mode ends, every one of them is in \<open>safe\<close>,
  whatever the candidates and the plugins file hold and whatever the trials showed.
\<close>

theorem required_optional_always_safe:
  "set (REQUIRED_PLUGINS c @ OPTIONAL_PATCHES c) \<subseteq> set (safe (turbo_start c to_test patch_plugins safe0)) \<and>
   set (REQUIRED_PLUGINS c @ OPTIONAL_PATCHES c) \<subseteq> set (tested (turbo_start c to_test patch_plugins safe0)) \<and>
   trials (turbo_start c to_test patch_plugins safe0) = [] \<and>
   (\<forall>s' fl. turbo_batch_mode fuel c e to_test patch_plugins safe0 = Some (s', fl) \<longrightarrow>
      set (REQUIRED_PLUGINS c @ OPTIONAL_PATCHES c) \<subseteq> set (safe s'))"
  using turbo_batch_mode_grows [of fuel c e to_test patch_plugins safe0]
  by (simp add: turbo_start_def)

subsection \<open>The mega batch\<close>

text \<open>
  Claim C4. In the loop over the single plugins of turbo mode, let the trial of a plugin
  crash, let \<open>s2\<close> be the state with the plugin marked failed and \<open>rem\<close> the plugins of
  \<open>remaining\<close> that are neither failed nor safe, not empty. The next attempt is one mega
  trial of \<open>rem\<close> on the baseline of the current safe list: its load order is the list of
  the required plugins, the optional plugins, the safe plugins and \<open>rem\<close>, in this order,
  deduplicated by the key and without empty names. If it passes, all of \<open>rem\<close> is
  marked safe, \<open>remaining\<close> is emptied and the loop ends with \<open>MegaDone\<close>; if it crashes,
  nothing but the history changes and the loop goes on with the next plugin. When
  \<open>remaining\<close> holds every candidate not yet safe or failed, \<open>rem\<close> is exactly the set of
  candidates not yet classified. In every run of turbo mode, whatever follows a mega trial
  that passed is a trial of the re-test pass.
\<close>

theorem mega_batch_after_failed_plugin:
  assumes "answer e (length (trials s)) (turbo_order c (safe s) [plugin]) = Crashed"
    and "s2 = s\<lparr>tested := append_new plugin (tested s), failed := append_new plugin (failed s),
                  trials := trials s @ [\<lparr>level = Singleton, part = [plugin],
                     order = turbo_order c (safe s) [plugin], verdict = Crashed\<rparr>]\<rparr>"
    and "rem = [p \<leftarrow> remaining s. p \<notin> set (failed s2) \<and> p \<notin> set (safe s)]"
    and "rem \<noteq> []"
    and "mega = \<lparr>level = Mega, part = rem, order = turbo_order c (safe s) rem,
                  verdict = answer e (Suc (length (trials s))) (turbo_order c (safe s) rem)\<rparr>"
  shows "load_order (\<lambda>p. p \<noteq> [])
           (REQUIRED_PLUGINS c @ OPTIONAL_PATCHES c @ safe s2 @ rem) (order mega) \<and>
         (verdict mega = Passed \<longrightarrow>
            turbo_single_loop c e (plugin # rest) s =
              ((mark_all_safe rem (s2\<lparr>trials := trials s2 @ [mega]\<rparr>))\<lparr>remaining := []\<rparr>, MegaDone) \<and>
            set rem \<subseteq> set (safe (fst (turbo_single_loop c e (plugin # rest) s)))) \<and>
         (verdict mega = Crashed \<longrightarrow>
            turbo_single_loop c e (plugin # rest) s =
              turbo_single_loop c e rest (s2\<lparr>trials := trials s2 @ [mega]\<rparr>)) \<and>
         (set (remaining s) \<subseteq> C \<and> C \<subseteq> set (safe s) \<union> set (failed s) \<union> set (remaining s) \<longrightarrow>
            set rem = C - (set (safe s2) \<union> set (failed s2))) \<and>
         (\<forall>fuel to_test patch_plugins s' fl i j.
            turbo_batch_mode fuel c e to_test patch_plugins [] = Some (s', fl) \<and>
            i < j \<and> j < length (trials s') \<and>
            level (trials s' ! i) = Mega \<and> verdict (trials s' ! i) = Passed \<longrightarrow>
            level (trials s' ! j) = Recheck)"
proof -
  let ?single = "\<lparr>level = Singleton, part = [plugin],
                     order = turbo_order c (safe s) [plugin], verdict = Crashed\<rparr>"
  have s2f: "safe s2 = safe s" "remaining s2 = remaining s" "trials s2 = trials s @ [?single]"
    "failed s2 = append_new plugin (failed s)"
    using assms(2) by simp_all
  have a1: "attempt e Singleton [plugin] (turbo_order c (safe s) [plugin]) s =
              (Crashed, s\<lparr>trials := trials s @ [?single]\<rparr>)"
    using assms(1) by (simp add: attempt_eq)
  have mf: "mark_failed plugin (s\<lparr>trials := trials s @ [?single]\<rparr>) = s2"
    using assms(2) by (simp add: mark_failed_def)
  have tr: "turbo_remaining s2 = rem"
    using assms(3) s2f by (simp add: turbo_remaining_def)
  have a2: "attempt e Mega rem (turbo_order c (safe s2) rem) s2 =
              (verdict mega, s2\<lparr>trials := trials s2 @ [mega]\<rparr>)"
    using assms(5) s2f by (simp add: attempt_eq)
  have p: "verdict mega = Passed \<longrightarrow>
            turbo_single_loop c e (plugin # rest) s =
              ((mark_all_safe rem (s2\<lparr>trials := trials s2 @ [mega]\<rparr>))\<lparr>remaining := []\<rparr>, MegaDone)"
    using a1 mf tr a2 assms(4) by (simp add: mega_batch_def)
  have c: "verdict mega = Crashed \<longrightarrow>
            turbo_single_loop c e (plugin # rest) s =
              turbo_single_loop c e rest (s2\<lparr>trials := trials s2 @ [mega]\<rparr>)"
    using a1 mf tr a2 assms(4) by (simp add: mega_batch_def)
  have cov: "set (remaining s) \<subseteq> C \<and> C \<subseteq> set (safe s) \<union> set (failed s) \<union> set (remaining s) \<longrightarrow>
            set rem = C - (set (safe s2) \<union> set (failed s2))"
    using assms(3) s2f by auto
  have g: "level (trials s' ! j) = Recheck"
    if h: "turbo_batch_mode fuel c e to_test patch_plugins [] = Some (s', fl)" "i < j"
      "j < length (trials s')" "level (trials s' ! i) = Mega" "verdict (trials s' ! i) = Passed"
    for fuel to_test patch_plugins s' fl i j
  proof -
    from turbo_batch_mode_grows [OF h(1)] obtain ts ms rs where
      t: "trials s' = ts @ ms @ rs" "no_mega_pass ts" "\<forall>t \<in> set rs. level t = Recheck"
         "ms = [] \<or> (\<exists>m. ms = [m])"
      by blast
    have i1: "\<not> i < length ts"
    proof
      assume "i < length ts"
      with t(1) have "trials s' ! i \<in> set ts" by (simp add: nth_append)
      with t(2) h(4,5) show False by (auto simp add: no_mega_pass_def)
    qed
    have i2: "\<not> length ts + length ms \<le> i"
    proof
      assume a: "length ts + length ms \<le> i"
      with h(2,3) t(1) have "i - (length ts + length ms) < length rs" by auto
      moreover from a t(1) have "trials s' ! i = rs ! (i - (length ts + length ms))"
        by (simp add: nth_append)
      ultimately have "trials s' ! i \<in> set rs" by simp
      with t(3) h(4) show False by auto
    qed
    from i1 i2 h(2) have j: "length ts + length ms \<le> j" using t(4) by auto
    with h(3) t(1) have "j - (length ts + length ms) < length rs" by auto
    moreover from j t(1) have "trials s' ! j = rs ! (j - (length ts + length ms))"
      by (simp add: nth_append)
    ultimately have "trials s' ! j \<in> set rs" by simp
    with t(3) show ?thesis by auto
  qed
  from p have q: "verdict mega = Passed \<longrightarrow>
      set rem \<subseteq> set (safe (fst (turbo_single_loop c e (plugin # rest) s)))"
    by simp
  have lo: "load_order (\<lambda>p. p \<noteq> [])
           (REQUIRED_PLUGINS c @ OPTIONAL_PATCHES c @ safe s2 @ rem) (order mega)"
    using turbo_order_load_order [of c "safe s" rem] assms(5) s2f(1) by simp
  from lo p q c cov g show ?thesis by blast
qed

text \<open>
  Witness for C4: the first of five plugins crashes; the mega trial of the other four, on
  the load order of the two safe plugins and the four, passes in one environment and
  crashes in another; and a whole run in which the mega trial passes.
\<close>

theorem mega_batch_after_failed_plugin_witness:
  "answer (script [Crashed, Passed] False) (length (trials turbo_mid))
     (turbo_order turbo_config (safe turbo_mid) [''a01.esp'']) = Crashed \<and>
   snd (turbo_single_loop turbo_config (script [Crashed, Passed] False)
          [''a01.esp'', ''a02.esp''] turbo_mid) = MegaDone \<and>
   set [''a02.esp'', ''a03.esp'', ''a04.esp'', ''a05.esp''] \<subseteq>
     set (safe (fst (turbo_single_loop turbo_config (script [Crashed, Passed] False)
                       [''a01.esp'', ''a02.esp''] turbo_mid))) \<and>
   answer (script [Crashed, Crashed] False) (length (trials turbo_mid))
     (turbo_order turbo_config (safe turbo_mid) [''a01.esp'']) = Crashed \<and>
   snd (turbo_single_loop turbo_config (script [Crashed, Crashed] False) [''a01.esp''] turbo_mid) = Next \<and>
   safe (fst (turbo_single_loop turbo_config (script [Crashed, Crashed] False) [''a01.esp''] turbo_mid)) =
     [''Oblivion.esm'', ''Unofficial Patch.esp''] \<and>
   history (fst (turbo_single_loop turbo_config (script [Crashed, Crashed] False) [''a01.esp''] turbo_mid)) =
     [(Singleton, [''a01.esp''], Crashed),
      (Mega, [''a02.esp'', ''a03.esp'', ''a04.esp'', ''a05.esp''], Crashed)] \<and>
   order (trials (fst (turbo_single_loop turbo_config (script [Crashed, Crashed] False)
                         [''a01.esp''] turbo_mid)) ! 1) =
     [''Oblivion.esm'', ''Unofficial Patch.esp'', ''a02.esp'', ''a03.esp'', ''a04.esp'', ''a05.esp''] \<and>
   set [''a02.esp'', ''a03.esp'', ''a04.esp'', ''a05.esp''] =
     set five_plugins - (set [''Oblivion.esm'', ''Unofficial Patch.esp''] \<union> set [''a01.esp'']) \<and>
   turbo_batch_mode 2 turbo_config (script [Crashed, Crashed, Crashed, Passed] True) five_plugins [] [] \<noteq> None \<and>
   level (trials (fst (the (turbo_batch_mode 2 turbo_config
            (script [Crashed, Crashed, Crashed, Passed] True) five_plugins [] []))) ! 3) = Mega \<and>
   verdict (trials (fst (the (turbo_batch_mode 2 turbo_config
            (script [Crashed, Crashed, Crashed, Passed] True) five_plugins [] []))) ! 3) = Passed \<and>
   level (trials (fst (the (turbo_batch_mode 2 turbo_config
            (script [Crashed, Crashed, Crashed, Passed] True) five_plugins [] []))) ! 4) = Recheck"
proof -
  let ?ep = "script [Crashed, Passed] False" and ?ec = "script [Crashed, Crashed] False"
  have hp: "answer ?ep (length (trials turbo_mid))
     (turbo_order turbo_config (safe turbo_mid) [''a01.esp'']) = Crashed"
    by (simp add: script_def turbo_mid_def)
  have hc: "answer ?ec (length (trials turbo_mid))
     (turbo_order turbo_config (safe turbo_mid) [''a01.esp'']) = Crashed"
    by (simp add: script_def turbo_mid_def)
  define s2 where "s2 = turbo_mid\<lparr>tested := append_new ''a01.esp'' (tested turbo_mid),
       failed := append_new ''a01.esp'' (failed turbo_mid),
       trials := trials turbo_mid @ [\<lparr>level = Singleton, part = [''a01.esp''],
          order = turbo_order turbo_config (safe turbo_mid) [''a01.esp''], verdict = Crashed\<rparr>]\<rparr>"
  define rem where "rem = [p \<leftarrow> remaining turbo_mid. p \<notin> set (failed s2) \<and> p \<notin> set (safe turbo_mid)]"
  have rem: "rem = [''a02.esp'', ''a03.esp'', ''a04.esp'', ''a05.esp'']"
    by (simp add: rem_def s2_def turbo_mid_def five_plugins_def append_new_def)
  then have ne: "rem \<noteq> []" by simp
  define mp where "mp = \<lparr>level = Mega, part = rem, order = turbo_order turbo_config (safe turbo_mid) rem,
       verdict = answer ?ep (Suc (length (trials turbo_mid))) (turbo_order turbo_config (safe turbo_mid) rem)\<rparr>"
  define mc where "mc = \<lparr>level = Mega, part = rem, order = turbo_order turbo_config (safe turbo_mid) rem,
       verdict = answer ?ec (Suc (length (trials turbo_mid))) (turbo_order turbo_config (safe turbo_mid) rem)\<rparr>"
  have vp: "verdict mp = Passed" by (simp add: mp_def script_def turbo_mid_def)
  have vc: "verdict mc = Crashed" by (simp add: mc_def script_def turbo_mid_def)
  note tp = mega_batch_after_failed_plugin [OF hp s2_def rem_def ne mp_def,
      where rest = "[''a02.esp'']" and C = "set five_plugins"]
  note tc = mega_batch_after_failed_plugin [OF hc s2_def rem_def ne mc_def,
      where rest = "[]" and C = "set five_plugins"]
  from tp vp have p1: "snd (turbo_single_loop turbo_config ?ep [''a01.esp'', ''a02.esp''] turbo_mid) = MegaDone"
    and p2: "set rem \<subseteq> set (safe (fst (turbo_single_loop turbo_config ?ep [''a01.esp'', ''a02.esp''] turbo_mid)))"
    by simp_all
  from tc vc have c0: "turbo_single_loop turbo_config ?ec [''a01.esp''] turbo_mid =
      (s2\<lparr>trials := trials s2 @ [mc]\<rparr>, Next)"
    by simp
  have c1: "snd (turbo_single_loop turbo_config ?ec [''a01.esp''] turbo_mid) = Next"
    "safe (fst (turbo_single_loop turbo_config ?ec [''a01.esp''] turbo_mid)) =
       [''Oblivion.esm'', ''Unofficial Patch.esp'']"
    "history (fst (turbo_single_loop turbo_config ?ec [''a01.esp''] turbo_mid)) =
       [(Singleton, [''a01.esp''], Crashed),
        (Mega, [''a02.esp'', ''a03.esp'', ''a04.esp'', ''a05.esp''], Crashed)]"
    unfolding c0 using vc rem by (simp_all add: s2_def mc_def turbo_mid_def history_def)
  have "turbo_order turbo_config [''Oblivion.esm'', ''Unofficial Patch.esp'']
          [''a02.esp'', ''a03.esp'', ''a04.esp'', ''a05.esp''] =
        [''Oblivion.esm'', ''Unofficial Patch.esp'', ''a02.esp'', ''a03.esp'', ''a04.esp'', ''a05.esp'']"
    by code_simp
  then have c2: "order (trials (fst (turbo_single_loop turbo_config ?ec [''a01.esp''] turbo_mid)) ! 1) =
      [''Oblivion.esm'', ''Unofficial Patch.esp'', ''a02.esp'', ''a03.esp'', ''a04.esp'', ''a05.esp'']"
    unfolding c0 using rem by (simp add: s2_def mc_def turbo_mid_def)
  have "set (remaining turbo_mid) \<subseteq> set five_plugins \<and>
        set five_plugins \<subseteq> set (safe turbo_mid) \<union> set (failed turbo_mid) \<union> set (remaining turbo_mid)"
    by (auto simp add: turbo_mid_def)
  with tp have "set rem = set five_plugins - (set (safe s2) \<union> set (failed s2))" by blast
  then have cv: "set [''a02.esp'', ''a03.esp'', ''a04.esp'', ''a05.esp''] =
     set five_plugins - (set [''Oblivion.esm'', ''Unofficial Patch.esp''] \<union> set [''a01.esp''])"
    unfolding rem by (simp add: s2_def turbo_mid_def append_new_def)
  let ?run = "turbo_batch_mode 2 turbo_config (script [Crashed, Crashed, Crashed, Passed] True) five_plugins [] []"
  have r: "map_option (\<lambda>(s, fl). (history s, fl)) ?run =
      Some ([(Batch, five_plugins, Crashed), (SubBatch, [''a01.esp'', ''a02.esp''], Crashed),
             (Singleton, [''a01.esp''], Crashed),
             (Mega, [''a02.esp'', ''a03.esp'', ''a04.esp'', ''a05.esp''], Passed),
             (Recheck, [''a01.esp''], Passed)], MegaDone)"
    by (simp add: turbo_eval)
  then obtain s' where s': "?run = Some (s', MegaDone)" "history s' = [(Batch, five_plugins, Crashed), (SubBatch, [''a01.esp'', ''a02.esp''], Crashed),
             (Singleton, [''a01.esp''], Crashed),
             (Mega, [''a02.esp'', ''a03.esp'', ''a04.esp'', ''a05.esp''], Passed),
             (Recheck, [''a01.esp''], Passed)]"
    by auto
  have len: "length (trials s') = 5"
    using arg_cong [OF s'(2), of length] by (simp add: history_def)
  have "history s' ! 3 = (level (trials s' ! 3), part (trials s' ! 3), verdict (trials s' ! 3))"
    using len by (simp add: history_def)
  with s'(2) have m3: "level (trials s' ! 3) = Mega" "verdict (trials s' ! 3) = Passed" by simp_all
  let ?er = "script [Crashed, Crashed, Crashed, Passed] True"
  have hr: "answer ?er (length (trials turbo_mid))
     (turbo_order turbo_config (safe turbo_mid) [''a01.esp'']) = Crashed"
    by (simp add: script_def turbo_mid_def)
  define mr where "mr = \<lparr>level = Mega, part = rem, order = turbo_order turbo_config (safe turbo_mid) rem,
       verdict = answer ?er (Suc (length (trials turbo_mid))) (turbo_order turbo_config (safe turbo_mid) rem)\<rparr>"
  note tr = mega_batch_after_failed_plugin [OF hr s2_def rem_def ne mr_def,
      where rest = "[]" and C = "set five_plugins"]
  note g = tr [THEN conjunct2, THEN conjunct2, THEN conjunct2, THEN conjunct2, rule_format,
      of 2 five_plugins "[]" s' MegaDone 3 4]
  from g s'(1) m3 len have r4: "level (trials s' ! 4) = Recheck" by simp
  from s'(1) m3 r4 have run: "?run \<noteq> None"
    "level (trials (fst (the ?run)) ! 3) = Mega" "verdict (trials (fst (the ?run)) ! 3) = Passed"
    "level (trials (fst (the ?run)) ! 4) = Recheck"
    by simp_all
  from hp hc p1 p2 c1 c2 cv run show ?thesis unfolding rem by blast
qed

subsection \<open>The re-test of the failed plugins\<close>

lemma filter_fst_disjoint:
  "distinct (map fst zs) \<Longrightarrow>
   set (map fst (filter P zs)) \<inter> set (map fst (filter (\<lambda>z. \<not> P z) zs)) = {}"
proof (induction zs)
  case Nil
  show ?case by simp
next
  case (Cons z zs)
  then have "fst z \<notin> fst ` set zs" and ih: "set (map fst (filter P zs)) \<inter> set (map fst (filter (\<lambda>z. \<not> P z) zs)) = {}"
    by simp_all
  then have "fst z \<notin> set (map fst (filter P zs))" "fst z \<notin> set (map fst (filter (\<lambda>z. \<not> P z) zs))"
    by auto
  with ih show ?case by auto
qed

lemma recheck_loop_log:
  assumes "recheck_loop c e ps (rf, s) = ((rf', s'), Returned)"
  shows "\<exists>ts. trials s' = trials s @ ts \<and> map level ts = map (\<lambda>p. Recheck) ps \<and>
           map part ts = map (\<lambda>p. [p]) ps \<and>
           safe s' = safe s @ map fst (filter (\<lambda>(p, t). verdict t = Passed) (zip ps ts)) \<and>
           rf' = rf @ map fst (filter (\<lambda>(p, t). verdict t \<noteq> Passed) (zip ps ts)) \<and>
           tested s' = tested s \<and> failed s' = failed s \<and> remaining s' = remaining s"
  using assms
proof (induction ps arbitrary: rf s)
  case Nil
  then show ?case by auto
next
  case (Cons p ps)
  obtain v s0 where a: "attempt e Recheck [p] (recheck_order c (safe s) p) s = (v, s0)"
    by (cases "attempt e Recheck [p] (recheck_order c (safe s) p) s")
  note f = attempt_facts [OF a]
  let ?t = "\<lparr>level = Recheck, part = [p], order = recheck_order c (safe s) p, verdict = v\<rparr>"
  obtain rf1 s1 st1 where r: "recheck_one c e p (rf, s) = ((rf1, s1), st1)"
    by (cases "recheck_one c e p (rf, s)") auto
  from r Cons.prems have st1: "st1 = Returned" and run: "recheck_loop c e ps (rf1, s1) = ((rf', s'), Returned)"
    by (cases st1; auto)+
  from r a f st1 have one: "trials s1 = trials s @ [?t]" "tested s1 = tested s" "failed s1 = failed s"
    "remaining s1 = remaining s"
    "safe s1 = (if v = Passed then safe s @ [p] else safe s)"
    "rf1 = (if v = Passed then rf else rf @ [p])"
    by (cases v; auto simp add: recheck_one_def)+
  from Cons.IH [OF run] obtain ts where
    h: "trials s' = trials s1 @ ts" "map level ts = map (\<lambda>p. Recheck) ps"
       "map part ts = map (\<lambda>p. [p]) ps"
       "safe s' = safe s1 @ map fst (filter (\<lambda>(p, t). verdict t = Passed) (zip ps ts))"
       "rf' = rf1 @ map fst (filter (\<lambda>(p, t). verdict t \<noteq> Passed) (zip ps ts))"
       "tested s' = tested s1" "failed s' = failed s1" "remaining s' = remaining s1"
    by blast
  have "trials s' = trials s @ (?t # ts) \<and> map level (?t # ts) = map (\<lambda>p. Recheck) (p # ps) \<and>
           map part (?t # ts) = map (\<lambda>p. [p]) (p # ps) \<and>
           safe s' = safe s @ map fst (filter (\<lambda>(p, t). verdict t = Passed) (zip (p # ps) (?t # ts))) \<and>
           rf' = rf @ map fst (filter (\<lambda>(p, t). verdict t \<noteq> Passed) (zip (p # ps) (?t # ts))) \<and>
           tested s' = tested s \<and> failed s' = failed s \<and> remaining s' = remaining s"
    using h one by simp
  then show ?case by blast
qed

lemma recheck_loop_append:
  "recheck_loop c e (xs @ ys) rs =
     (case recheck_loop c e xs rs of
        (rs1, Returned) \<Rightarrow> recheck_loop c e ys rs1
      | (rs1, Exited) \<Rightarrow> (rs1, Exited))"
  by (induction xs arbitrary: rs) (auto split: prod.splits status.splits)

lemma recheck_loop_first:
  assumes "recheck_loop c e (p # ps) (rf, s) = ((rf', s'), Returned)"
  shows "\<exists>ts. trials s' = trials s @
           \<lparr>level = Recheck, part = [p], order = recheck_order c (safe s) p,
            verdict = answer e (length (trials s)) (recheck_order c (safe s) p)\<rparr> # ts"
proof -
  obtain rf1 s1 st1 where r: "recheck_one c e p (rf, s) = ((rf1, s1), st1)"
    by (cases "recheck_one c e p (rf, s)") auto
  from r assms have st1: "st1 = Returned" and run: "recheck_loop c e ps (rf1, s1) = ((rf', s'), Returned)"
    by (cases st1; auto)+
  from r have one: "trials s1 = trials s @
           [\<lparr>level = Recheck, part = [p], order = recheck_order c (safe s) p,
             verdict = answer e (length (trials s)) (recheck_order c (safe s) p)\<rparr>]"
    by (cases "answer e (length (trials s)) (recheck_order c (safe s) p)")
      (auto simp add: recheck_one_def attempt_eq)
  from recheck_loop_log [OF run] obtain ts where "trials s' = trials s1 @ ts" by blast
  with one show ?thesis by simp
qed

lemma recheck_loop_steps:
  assumes run: "recheck_loop c e ps (rf0, s) = ((rf', s'), Returned)"
    and ts: "trials s' = trials s @ ts"
    and k: "k \<le> length ps"
  shows "\<exists>rf sk. recheck_loop c e (take k ps) (rf0, s) = ((rf, sk), Returned) \<and>
           trials sk = trials s @ take k ts \<and> failed sk = failed s \<and>
           safe sk = safe s @ map fst (filter (\<lambda>(p, t). verdict t = Passed) (zip (take k ps) ts)) \<and>
           (\<forall>j < k. verdict (ts ! j) = Passed \<longrightarrow> ps ! j \<in> set (safe sk)) \<and>
           (k < length ps \<longrightarrow> order (ts ! k) = recheck_order c (safe sk) (ps ! k))"
proof -
  obtain rfk sk stk where pk: "recheck_loop c e (take k ps) (rf0, s) = ((rfk, sk), stk)"
    by (cases "recheck_loop c e (take k ps) (rf0, s)") auto
  have "recheck_loop c e ps (rf0, s) =
     (case recheck_loop c e (take k ps) (rf0, s) of
        (rs1, Returned) \<Rightarrow> recheck_loop c e (drop k ps) rs1
      | (rs1, Exited) \<Rightarrow> (rs1, Exited))"
    using recheck_loop_append [of c e "take k ps" "drop k ps" "(rf0, s)"] by simp
  with run pk have stk: "stk = Returned"
    and rest: "recheck_loop c e (drop k ps) (rfk, sk) = ((rf', s'), Returned)"
    by (cases stk; simp)+
  from recheck_loop_log [OF pk [unfolded stk]] obtain tsk where
    a: "trials sk = trials s @ tsk" "map level tsk = map (\<lambda>p. Recheck) (take k ps)"
       "safe sk = safe s @ map fst (filter (\<lambda>(p, t). verdict t = Passed) (zip (take k ps) tsk))"
       "failed sk = failed s"
    by blast
  from recheck_loop_log [OF rest] obtain tsd where b: "trials s' = trials sk @ tsd" by blast
  from a(1) b ts have split: "ts = tsk @ tsd" by simp
  have len: "length tsk = k"
    using arg_cong [OF a(2), of length] k by simp
  then have tk: "take k ts = tsk" unfolding split by simp
  have zp: "zip (take k ps) ts = zip (take k ps) tsk"
    unfolding split using len k by (simp add: zip_append2)
  have mig: "\<forall>j < k. verdict (ts ! j) = Passed \<longrightarrow> ps ! j \<in> set (safe sk)"
  proof (intro allI impI)
    fix j assume j: "j < k" and v: "verdict (ts ! j) = Passed"
    from j len have e: "ts ! j = tsk ! j" unfolding split by (simp add: nth_append)
    from j k len have "zip (take k ps) tsk ! j = (ps ! j, tsk ! j)" by simp
    moreover from j k len have "zip (take k ps) tsk ! j \<in> set (zip (take k ps) tsk)"
      by (intro nth_mem) simp
    ultimately have "(ps ! j, tsk ! j) \<in> set (zip (take k ps) tsk)" by simp
    with v e have "(ps ! j, tsk ! j) \<in> set (filter (\<lambda>(p, t). verdict t = Passed) (zip (take k ps) tsk))"
      by simp
    then have "ps ! j \<in> set (map fst (filter (\<lambda>(p, t). verdict t = Passed) (zip (take k ps) tsk)))"
      by force
    with a(3) show "ps ! j \<in> set (safe sk)" by simp
  qed
  have ord: "k < length ps \<longrightarrow> order (ts ! k) = recheck_order c (safe sk) (ps ! k)"
  proof
    assume lt: "k < length ps"
    then have d: "drop k ps = ps ! k # drop (Suc k) ps" by (simp add: Cons_nth_drop_Suc)
    from recheck_loop_first [OF rest [unfolded d]] obtain us where
      "trials s' = trials sk @
           \<lparr>level = Recheck, part = [ps ! k], order = recheck_order c (safe sk) (ps ! k),
            verdict = answer e (length (trials sk)) (recheck_order c (safe sk) (ps ! k))\<rparr> # us"
      by blast
    with b have "tsd = \<lparr>level = Recheck, part = [ps ! k], order = recheck_order c (safe sk) (ps ! k),
            verdict = answer e (length (trials sk)) (recheck_order c (safe sk) (ps ! k))\<rparr> # us"
      by simp
    with len show "order (ts ! k) = recheck_order c (safe sk) (ps ! k)"
      unfolding split by (simp add: nth_append)
  qed
  from pk stk a(1,3,4) tk zp mig ord show ?thesis by simp
qed

text \<open>
  Claim C5, as the code has it. When the operator accepts the re-test, every failed plugin
  gets one trial alone, and its load order is the list of the required plugins, the
  optional plugins, the plugins of the backup file that are safe at that moment and the
  plugin itself, in this order, deduplicated by the key and without empty names. A plugin
  that passes is appended to \<open>safe\<close> at once; \<open>failed\<close> is not touched by the loop and is
  replaced by the plugins that did not pass when the loop is over. So after \<open>k\<close> rounds of
  the loop every plugin that has passed so far is in \<open>safe\<close> and in \<open>failed\<close>, and the trial
  of the next plugin is made from that safe list. After the pass, \<open>safe\<close> has gained the
  plugins that passed, once each, \<open>failed\<close> holds the others, no plugin is in both, and
  \<open>tested\<close> is as before.
\<close>

theorem recheck_moves_failed_to_safe:
  assumes "post_pass c e s = (s', Returned)" and "failed s \<noteq> []" and "retest e"
    and "distinct (failed s)" and "set (safe s) \<inter> set (failed s) = {}"
  shows "(\<exists>ts. trials s' = trials s @ ts \<and> map level ts = map (\<lambda>p. Recheck) (failed s) \<and>
            map part ts = map (\<lambda>p. [p]) (failed s) \<and>
            safe s' = safe s @ map fst (filter (\<lambda>(p, t). verdict t = Passed) (zip (failed s) ts)) \<and>
            failed s' = map fst (filter (\<lambda>(p, t). verdict t \<noteq> Passed) (zip (failed s) ts)) \<and>
            (\<forall>k \<le> length (failed s). \<exists>rf sk.
               recheck_loop c e (take k (failed s)) ([], s) = ((rf, sk), Returned) \<and>
               trials sk = trials s @ take k ts \<and> failed sk = failed s \<and>
               safe sk = safe s @
                 map fst (filter (\<lambda>(p, t). verdict t = Passed) (zip (take k (failed s)) ts)) \<and>
               (\<forall>j < k. verdict (ts ! j) = Passed \<longrightarrow>
                  failed s ! j \<in> set (safe sk) \<and> failed s ! j \<in> set (failed sk)) \<and>
               (k < length (failed s) \<longrightarrow>
                  order (ts ! k) = recheck_order c (safe sk) (failed s ! k) \<and>
                  load_order (\<lambda>p. p \<noteq> [])
                    (REQUIRED_PLUGINS c @ OPTIONAL_PATCHES c @
                       [p \<leftarrow> backup_plugins c. p \<in> set (safe sk)] @ [failed s ! k])
                    (order (ts ! k))))) \<and>
         tested s' = tested s \<and>
         set (safe s') \<inter> set (failed s') = {} \<and>
         set (safe s') \<union> set (failed s') = set (safe s) \<union> set (failed s) \<and>
         (distinct (safe s) \<longrightarrow> distinct (safe s')) \<and>
         (\<forall>p rf s0. failed (snd (fst (recheck_one c e p (rf, s0)))) = failed s0)"
proof -
  obtain rf' s1 st where r: "recheck_loop c e (failed s) ([], s) = ((rf', s1), st)"
    by (cases "recheck_loop c e (failed s) ([], s)") auto
  from assms(1-3) r have st: "st = Returned" and s': "s' = s1\<lparr>failed := rf'\<rparr>"
    by (auto simp add: post_pass_def split: status.splits)
  from recheck_loop_log [OF r [unfolded st]] obtain ts where
    h: "trials s1 = trials s @ ts" "map level ts = map (\<lambda>p. Recheck) (failed s)"
       "map part ts = map (\<lambda>p. [p]) (failed s)"
       "safe s1 = safe s @ map fst (filter (\<lambda>(p, t). verdict t = Passed) (zip (failed s) ts))"
       "rf' = map fst (filter (\<lambda>(p, t). verdict t \<noteq> Passed) (zip (failed s) ts))"
       "tested s1 = tested s"
    by auto
  let ?zs = "zip (failed s) ts"
  let ?mig = "map fst (filter (\<lambda>(p, t). verdict t = Passed) ?zs)"
  let ?kept = "map fst (filter (\<lambda>(p, t). verdict t \<noteq> Passed) ?zs)"
  have len: "length ts = length (failed s)"
    using arg_cong [OF h(2), of length] by simp
  then have fz: "map fst ?zs = failed s" by simp
  with assms(4) have dz: "distinct (map fst ?zs)" by simp
  have neg: "(\<lambda>(p, t). verdict t \<noteq> Passed) = (\<lambda>z. \<not> (\<lambda>(p, t). verdict t = Passed) z)"
    by auto
  have dis: "set ?mig \<inter> set ?kept = {}"
    unfolding neg by (rule filter_fst_disjoint [OF dz])
  have un: "set ?mig \<union> set ?kept = set (failed s)"
  proof -
    have "set ?mig \<union> set ?kept = fst ` set ?zs" by (auto simp add: image_iff)
    also have "\<dots> = set (map fst ?zs)" by simp
    finally show ?thesis using fz by simp
  qed
  have dm: "distinct ?mig" using dz by (rule distinct_map_filter)
  have one: "failed (snd (fst (recheck_one c e p (rf, s0)))) = failed s0" for p rf s0
    by (cases "answer e (length (trials s0)) (recheck_order c (safe s0) p)")
      (simp_all add: recheck_one_def attempt_eq)
  have a: "set (safe s') \<inter> set (failed s') = {}"
    using assms(5) dis un unfolding s' by (simp add: h(4,5)) blast
  have b: "set (safe s') \<union> set (failed s') = set (safe s) \<union> set (failed s)"
    using un unfolding s' by (simp add: h(4,5)) blast
  have d: "distinct (safe s) \<longrightarrow> distinct (safe s')"
    using assms(5) dm un unfolding s' by (simp add: h(4)) blast
  have steps: "\<forall>k \<le> length (failed s). \<exists>rf sk.
               recheck_loop c e (take k (failed s)) ([], s) = ((rf, sk), Returned) \<and>
               trials sk = trials s @ take k ts \<and> failed sk = failed s \<and>
               safe sk = safe s @
                 map fst (filter (\<lambda>(p, t). verdict t = Passed) (zip (take k (failed s)) ts)) \<and>
               (\<forall>j < k. verdict (ts ! j) = Passed \<longrightarrow>
                  failed s ! j \<in> set (safe sk) \<and> failed s ! j \<in> set (failed sk)) \<and>
               (k < length (failed s) \<longrightarrow>
                  order (ts ! k) = recheck_order c (safe sk) (failed s ! k) \<and>
                  load_order (\<lambda>p. p \<noteq> [])
                    (REQUIRED_PLUGINS c @ OPTIONAL_PATCHES c @
                       [p \<leftarrow> backup_plugins c. p \<in> set (safe sk)] @ [failed s ! k])
                    (order (ts ! k)))"
  proof (intro allI impI)
    fix k assume k: "k \<le> length (failed s)"
    from recheck_loop_steps [OF r [unfolded st] h(1) k] obtain rf sk where
      q: "recheck_loop c e (take k (failed s)) ([], s) = ((rf, sk), Returned)"
         "trials sk = trials s @ take k ts" "failed sk = failed s"
         "safe sk = safe s @
            map fst (filter (\<lambda>(p, t). verdict t = Passed) (zip (take k (failed s)) ts))"
         "\<forall>j < k. verdict (ts ! j) = Passed \<longrightarrow> failed s ! j \<in> set (safe sk)"
         "k < length (failed s) \<longrightarrow> order (ts ! k) = recheck_order c (safe sk) (failed s ! k)"
      by blast
    from q(3,5) k have both: "\<forall>j < k. verdict (ts ! j) = Passed \<longrightarrow>
        failed s ! j \<in> set (safe sk) \<and> failed s ! j \<in> set (failed sk)"
      by simp
    from q(6) have lo: "k < length (failed s) \<longrightarrow>
        order (ts ! k) = recheck_order c (safe sk) (failed s ! k) \<and>
        load_order (\<lambda>p. p \<noteq> [])
          (REQUIRED_PLUGINS c @ OPTIONAL_PATCHES c @
             [p \<leftarrow> backup_plugins c. p \<in> set (safe sk)] @ [failed s ! k])
          (order (ts ! k))"
      using recheck_order_load_order [of c "safe sk" "failed s ! k"] by simp
    from q(1-4) both lo show "\<exists>rf sk.
               recheck_loop c e (take k (failed s)) ([], s) = ((rf, sk), Returned) \<and>
               trials sk = trials s @ take k ts \<and> failed sk = failed s \<and>
               safe sk = safe s @
                 map fst (filter (\<lambda>(p, t). verdict t = Passed) (zip (take k (failed s)) ts)) \<and>
               (\<forall>j < k. verdict (ts ! j) = Passed \<longrightarrow>
                  failed s ! j \<in> set (safe sk) \<and> failed s ! j \<in> set (failed sk)) \<and>
               (k < length (failed s) \<longrightarrow>
                  order (ts ! k) = recheck_order c (safe sk) (failed s ! k) \<and>
                  load_order (\<lambda>p. p \<noteq> [])
                    (REQUIRED_PLUGINS c @ OPTIONAL_PATCHES c @
                       [p \<leftarrow> backup_plugins c. p \<in> set (safe sk)] @ [failed s ! k])
                    (order (ts ! k)))"
      by blast
  qed
  have "trials s' = trials s @ ts \<and> map level ts = map (\<lambda>p. Recheck) (failed s) \<and>
            map part ts = map (\<lambda>p. [p]) (failed s) \<and>
            safe s' = safe s @ ?mig \<and> failed s' = ?kept"
    using h unfolding s' by simp
  with steps have "\<exists>ts. trials s' = trials s @ ts \<and> map level ts = map (\<lambda>p. Recheck) (failed s) \<and>
            map part ts = map (\<lambda>p. [p]) (failed s) \<and>
            safe s' = safe s @ map fst (filter (\<lambda>(p, t). verdict t = Passed) (zip (failed s) ts)) \<and>
            failed s' = map fst (filter (\<lambda>(p, t). verdict t \<noteq> Passed) (zip (failed s) ts)) \<and>
            (\<forall>k \<le> length (failed s). \<exists>rf sk.
               recheck_loop c e (take k (failed s)) ([], s) = ((rf, sk), Returned) \<and>
               trials sk = trials s @ take k ts \<and> failed sk = failed s \<and>
               safe sk = safe s @
                 map fst (filter (\<lambda>(p, t). verdict t = Passed) (zip (take k (failed s)) ts)) \<and>
               (\<forall>j < k. verdict (ts ! j) = Passed \<longrightarrow>
                  failed s ! j \<in> set (safe sk) \<and> failed s ! j \<in> set (failed sk)) \<and>
               (k < length (failed s) \<longrightarrow>
                  order (ts ! k) = recheck_order c (safe sk) (failed s ! k) \<and>
                  load_order (\<lambda>p. p \<noteq> [])
                    (REQUIRED_PLUGINS c @ OPTIONAL_PATCHES c @
                       [p \<leftarrow> backup_plugins c. p \<in> set (safe sk)] @ [failed s ! k])
                    (order (ts ! k))))"
    by blast
  moreover have "tested s' = tested s" using h(6) unfolding s' by simp
  ultimately show ?thesis using a b d one by blast
qed

text \<open>
  Witness for C5: two failed plugins are re-tested; the first passes and the second
  crashes. After the first round the first plugin is in \<open>safe\<close> and in \<open>failed\<close>, and the
  load order of the second trial holds it, at its place in the backup file.
\<close>

theorem recheck_moves_failed_to_safe_witness:
  "snd (post_pass turbo_config (script [Passed, Crashed] True) two_failed) = Returned \<and>
   failed two_failed \<noteq> [] \<and> retest (script [Passed, Crashed] True) \<and> distinct (failed two_failed) \<and>
   set (safe two_failed) \<inter> set (failed two_failed) = {} \<and>
   safe (fst (post_pass turbo_config (script [Passed, Crashed] True) two_failed)) =
     [''Oblivion.esm'', ''Unofficial Patch.esp'', ''a03.esp'', ''a04.esp'', ''a05.esp'', ''a01.esp''] \<and>
   failed (fst (post_pass turbo_config (script [Passed, Crashed] True) two_failed)) = [''a02.esp''] \<and>
   tested (fst (post_pass turbo_config (script [Passed, Crashed] True) two_failed)) = tested two_failed \<and>
   set (safe (fst (post_pass turbo_config (script [Passed, Crashed] True) two_failed))) \<inter>
     set (failed (fst (post_pass turbo_config (script [Passed, Crashed] True) two_failed))) = {} \<and>
   ''a01.esp'' \<in> set (safe (snd (fst (recheck_loop turbo_config (script [Passed, Crashed] True)
       (take 1 (failed two_failed)) ([], two_failed))))) \<and>
   ''a01.esp'' \<in> set (failed (snd (fst (recheck_loop turbo_config (script [Passed, Crashed] True)
       (take 1 (failed two_failed)) ([], two_failed))))) \<and>
   part (trials (fst (post_pass turbo_config (script [Passed, Crashed] True) two_failed)) ! 1) =
     [''a02.esp''] \<and>
   order (trials (fst (post_pass turbo_config (script [Passed, Crashed] True) two_failed)) ! 1) =
     [''Oblivion.esm'', ''Unofficial Patch.esp'', ''a01.esp'', ''a03.esp'', ''a04.esp'', ''a05.esp'',
      ''a02.esp'']"
proof -
  let ?e = "script [Passed, Crashed] True"
  have o: "recheck_order turbo_config
      [''Oblivion.esm'', ''Unofficial Patch.esp'', ''a03.esp'', ''a04.esp'', ''a05.esp'', ''a01.esp'']
      ''a02.esp'' =
     [''Oblivion.esm'', ''Unofficial Patch.esp'', ''a01.esp'', ''a03.esp'', ''a04.esp'', ''a05.esp'',
      ''a02.esp'']"
    by code_simp
  have "trials (fst (post_pass turbo_config ?e two_failed)) ! 1 =
      \<lparr>level = Recheck, part = [''a02.esp''],
       order = recheck_order turbo_config
         [''Oblivion.esm'', ''Unofficial Patch.esp'', ''a03.esp'', ''a04.esp'', ''a05.esp'', ''a01.esp'']
         ''a02.esp'',
       verdict = Crashed\<rparr>"
    by (simp add: turbo_eval two_failed_def)
  with o have second: "part (trials (fst (post_pass turbo_config ?e two_failed)) ! 1) = [''a02.esp'']"
    "order (trials (fst (post_pass turbo_config ?e two_failed)) ! 1) =
     [''Oblivion.esm'', ''Unofficial Patch.esp'', ''a01.esp'', ''a03.esp'', ''a04.esp'', ''a05.esp'',
      ''a02.esp'']"
    by simp_all
  have both: "''a01.esp'' \<in> set (safe (snd (fst (recheck_loop turbo_config ?e
       (take 1 (failed two_failed)) ([], two_failed)))))"
    "''a01.esp'' \<in> set (failed (snd (fst (recheck_loop turbo_config ?e
       (take 1 (failed two_failed)) ([], two_failed)))))"
    by (simp_all add: turbo_eval two_failed_def)
  obtain s' where run: "post_pass turbo_config ?e two_failed = (s', Returned)"
    and led: "safe s' = [''Oblivion.esm'', ''Unofficial Patch.esp'', ''a03.esp'', ''a04.esp'', ''a05.esp'', ''a01.esp'']"
      "failed s' = [''a02.esp'']"
    by (simp add: turbo_eval two_failed_def)
  have h: "failed two_failed \<noteq> []" "retest ?e" "distinct (failed two_failed)"
    "set (safe two_failed) \<inter> set (failed two_failed) = {}"
    by (simp_all add: two_failed_def script_def)
  note t = recheck_moves_failed_to_safe [OF run h]
  from t have "tested s' = tested two_failed" "set (safe s') \<inter> set (failed s') = {}" by blast+
  with run led h have "snd (post_pass turbo_config ?e two_failed) = Returned \<and>
   failed two_failed \<noteq> [] \<and> retest ?e \<and> distinct (failed two_failed) \<and>
   set (safe two_failed) \<inter> set (failed two_failed) = {} \<and>
   safe (fst (post_pass turbo_config ?e two_failed)) =
     [''Oblivion.esm'', ''Unofficial Patch.esp'', ''a03.esp'', ''a04.esp'', ''a05.esp'', ''a01.esp''] \<and>
   failed (fst (post_pass turbo_config ?e two_failed)) = [''a02.esp''] \<and>
   tested (fst (post_pass turbo_config ?e two_failed)) = tested two_failed \<and>
   set (safe (fst (post_pass turbo_config ?e two_failed))) \<inter>
     set (failed (fst (post_pass turbo_config ?e two_failed))) = {}"
    by simp
  with both second show ?thesis by blast
qed

text \<open>
  Counterexample to C5 as stated: two failed plugins, and the first passes its re-test.
  After that iteration of the loop the plugin is in \<open>safe\<close> and still in \<open>failed\<close>, and the
  trial of the second plugin is made from that state: its load order lists the first
  plugin among the safe ones.
\<close>

theorem recheck_keeps_failed_until_end:
  "recheck_loop turbo_config (script [] True) (failed two_failed) ([], two_failed) =
     recheck_loop turbo_config (script [] True) [''a02.esp'']
       (fst (recheck_one turbo_config (script [] True) ''a01.esp'' ([], two_failed))) \<and>
   ''a01.esp'' \<in> set (safe (snd (fst (recheck_one turbo_config (script [] True) ''a01.esp'' ([], two_failed))))) \<and>
   ''a01.esp'' \<in> set (failed (snd (fst (recheck_one turbo_config (script [] True) ''a01.esp'' ([], two_failed))))) \<and>
   recheck_order turbo_config
     (safe (snd (fst (recheck_one turbo_config (script [] True) ''a01.esp'' ([], two_failed))))) ''a02.esp'' =
     [''Oblivion.esm'', ''Unofficial Patch.esp'', ''a01.esp'', ''a03.esp'', ''a04.esp'', ''a05.esp'',
      ''a02.esp''] \<and>
   history (snd (fst (recheck_loop turbo_config (script [] True) (failed two_failed) ([], two_failed)))) =
     [(Recheck, [''a01.esp''], Passed), (Recheck, [''a02.esp''], Passed)]"
proof -
  have "recheck_order turbo_config
     (safe (snd (fst (recheck_one turbo_config (script [] True) ''a01.esp'' ([], two_failed))))) ''a02.esp'' =
     [''Oblivion.esm'', ''Unofficial Patch.esp'', ''a01.esp'', ''a03.esp'', ''a04.esp'', ''a05.esp'',
      ''a02.esp'']"
    by code_simp
  moreover have "recheck_loop turbo_config (script [] True) (failed two_failed) ([], two_failed) =
     recheck_loop turbo_config (script [] True) [''a02.esp'']
       (fst (recheck_one turbo_config (script [] True) ''a01.esp'' ([], two_failed))) \<and>
   ''a01.esp'' \<in> set (safe (snd (fst (recheck_one turbo_config (script [] True) ''a01.esp'' ([], two_failed))))) \<and>
   ''a01.esp'' \<in> set (failed (snd (fst (recheck_one turbo_config (script [] True) ''a01.esp'' ([], two_failed))))) \<and>
   history (snd (fst (recheck_loop turbo_config (script [] True) (failed two_failed) ([], two_failed)))) =
     [(Recheck, [''a01.esp''], Passed), (Recheck, [''a02.esp''], Passed)]"
    by (simp add: turbo_eval two_failed_def)
  ultimately show ?thesis by blast
qed

text \<open>
  Counterexample to C6 as stated: five candidates, none of them required or optional, pass
  as one batch. The run ends normally with seven tested plugins: the five candidates and
  the required and the optional plugin, which the plugins file does not even list.
\<close>

theorem turbo_tested_exceeds_candidates:
  "snd (the (turbo_batch_mode 2 turbo_config (always Passed) five_plugins [] [])) = Next \<and>
   safe (fst (the (turbo_batch_mode 2 turbo_config (always Passed) five_plugins [] []))) =
     [''Oblivion.esm'', ''Unofficial Patch.esp'', ''a01.esp'', ''a02.esp'', ''a03.esp'', ''a04.esp'',
      ''a05.esp''] \<and>
   failed (fst (the (turbo_batch_mode 2 turbo_config (always Passed) five_plugins [] []))) = [] \<and>
   length (tested (fst (the (turbo_batch_mode 2 turbo_config (always Passed) five_plugins [] [])))) = 7 \<and>
   length (five_plugins @ []) = 5 \<and>
   length (backup_plugins turbo_config) = 5"
  by (simp add: turbo_eval)

text \<open>
  Witness for C6: five candidates of which two fail and are moved to \<open>safe\<close> by the
  re-test.
\<close>

theorem turbo_conservation_witness:
  "turbo_batch_mode 2 turbo_config (script [Crashed, Crashed, Crashed, Crashed, Crashed, Crashed] True)
     five_plugins [] [] \<noteq> None \<and>
   snd (the (turbo_batch_mode 2 turbo_config
     (script [Crashed, Crashed, Crashed, Crashed, Crashed, Crashed] True) five_plugins [] [])) = Next \<and>
   distinct (five_plugins @ []) \<and>
   set (five_plugins @ []) \<inter> set (REQUIRED_PLUGINS turbo_config @ OPTIONAL_PATCHES turbo_config) = {} \<and>
   set (five_plugins @ []) \<subseteq>
     set (safe (fst (the (turbo_batch_mode 2 turbo_config
       (script [Crashed, Crashed, Crashed, Crashed, Crashed, Crashed] True) five_plugins [] [])))) \<union>
     set (failed (fst (the (turbo_batch_mode 2 turbo_config
       (script [Crashed, Crashed, Crashed, Crashed, Crashed, Crashed] True) five_plugins [] [])))) \<and>
   length (tested (fst (the (turbo_batch_mode 2 turbo_config
       (script [Crashed, Crashed, Crashed, Crashed, Crashed, Crashed] True) five_plugins [] [])))) = 7"
proof -
  let ?run = "turbo_batch_mode 2 turbo_config
     (script [Crashed, Crashed, Crashed, Crashed, Crashed, Crashed] True) five_plugins [] []"
  obtain s' where run: "?run = Some (s', Next)"
    by (simp add: turbo_eval)
  have h: "distinct (five_plugins @ [])"
    "set (five_plugins @ []) \<inter> set (REQUIRED_PLUGINS turbo_config @ OPTIONAL_PATCHES turbo_config) = {}"
    by (simp_all add: five_plugins_def turbo_config_def)
  have n: "Next = Next \<or> Next = MegaDone" by simp
  note t = turbo_conservation [OF run n h]
  have "length (remdups (REQUIRED_PLUGINS turbo_config @ OPTIONAL_PATCHES turbo_config)) +
          length (five_plugins @ []) = 7"
    by (simp add: five_plugins_def turbo_config_def)
  with t have "set (five_plugins @ []) \<subseteq> set (safe s') \<union> set (failed s')" "length (tested s') = 7"
    by simp_all
  with run h show ?thesis by simp
qed

text \<open>
  Witness for C9: the required and the optional plugin are not in the plugins file, no
  trial has them under test, and they are safe at the end.
\<close>

theorem required_optional_always_safe_witness:
  "turbo_batch_mode 2 turbo_config (always Passed) five_plugins [] [] \<noteq> None \<and>
   set (REQUIRED_PLUGINS turbo_config @ OPTIONAL_PATCHES turbo_config) \<subseteq>
     set (safe (fst (the (turbo_batch_mode 2 turbo_config (always Passed) five_plugins [] [])))) \<and>
   history (fst (the (turbo_batch_mode 2 turbo_config (always Passed) five_plugins [] []))) =
     [(Batch, five_plugins, Passed)] \<and>
   set (REQUIRED_PLUGINS turbo_config @ OPTIONAL_PATCHES turbo_config) \<inter>
     set (backup_plugins turbo_config) = {}"
proof -
  let ?run = "turbo_batch_mode 2 turbo_config (always Passed) five_plugins [] []"
  obtain s' where run: "?run = Some (s', Next)" and hist: "history s' = [(Batch, five_plugins, Passed)]"
    by (simp add: turbo_eval)
  from required_optional_always_safe [of turbo_config five_plugins "[]" "[]" 2 "always Passed"] run
  have "set (REQUIRED_PLUGINS turbo_config @ OPTIONAL_PATCHES turbo_config) \<subseteq> set (safe s')"
    by blast
  moreover have "set (REQUIRED_PLUGINS turbo_config @ OPTIONAL_PATCHES turbo_config) \<inter>
     set (backup_plugins turbo_config) = {}"
    by (simp add: turbo_config_def five_plugins_def)
  ultimately show ?thesis using run hist by simp
qed

subsection \<open>Waiting for a crash\<close>

lemma grace_none: "(\<forall>j < n. \<not> seen (k + j)) \<Longrightarrow> grace seen k n = None"
proof (induction n arbitrary: k)
  case 0
  show ?case by simp
next
  case (Suc n)
  from Suc.prems have "\<not> seen k" by (metis add.right_neutral zero_less_Suc)
  moreover from Suc.prems have "\<forall>j < n. \<not> seen (Suc k + j)" by (metis Suc_less_eq add_Suc_shift)
  ultimately show ?case using Suc.IH [of "Suc k"] by simp
qed

lemma grace_some:
  "g < n \<Longrightarrow> (\<forall>j < g. \<not> seen (k + j)) \<Longrightarrow> seen (k + g) \<Longrightarrow> grace seen k n = Some (k + g)"
proof (induction n arbitrary: k g)
  case 0
  then show ?case by simp
next
  case (Suc n)
  show ?case
  proof (cases g)
    case 0
    with Suc.prems show ?thesis by simp
  next
    case (Suc g')
    with Suc.prems have nk: "\<not> seen k" by (metis add.right_neutral zero_less_Suc)
    from Suc Suc.prems have a: "g' < n" "\<forall>j < g'. \<not> seen (Suc k + j)" "seen (Suc k + g')"
      by (auto simp add: less_Suc_eq_0_disj)
    from Suc.IH [OF a] nk Suc show ?thesis by simp
  qed
qed

lemma wait_loop_run:
  "(\<forall>j < n. in_time w (k + j) \<and> tick_key w (k + j) = None \<and> tick_alive w (k + j)) \<Longrightarrow>
   wait_loop (n + fuel) w k sl = wait_loop fuel w (k + n) (sl @ replicate n (nap w))"
proof (induction n arbitrary: k sl)
  case 0
  show ?case by simp
next
  case (Suc n)
  from Suc.prems have h: "in_time w k" "tick_key w k = None" "tick_alive w k"
    by (metis add.right_neutral zero_less_Suc)+
  from Suc.prems have "\<forall>j < n. in_time w (Suc k + j) \<and> tick_key w (Suc k + j) = None \<and> tick_alive w (Suc k + j)"
    by (metis Suc_less_eq add_Suc_shift)
  from Suc.IH [OF this, of "sl @ [nap w]"] h show ?case
    by (simp add: replicate_append_same)
qed

text \<open>
  Claim C8, as the code has it. The process is looked for at the polls only. If the
  process is seen in none of the 30 rounds of the start-up loop, the
  function has asked for 30 naps of 0.1 seconds, 3 seconds in all, closes the game and
  returns \<^verbatim>\<open>True\<close> (crashed). If the process is seen in round \<open>g\<close>, and then in every
  round of the \<^verbatim>\<open>while\<close> loop no key is pressed and the process is found, until the clock
  shows that \<^verbatim>\<open>WAIT_SECONDS\<close> have gone by since the start, the function closes the game
  and returns \<^verbatim>\<open>False\<close> (passed). If in a round before that the process is not found, the
  function closes the game and returns \<^verbatim>\<open>True\<close>.
\<close>

theorem wait_and_check_crash_outcomes:
  "((\<forall>k < 30. \<not> launch_seen w k) \<longrightarrow>
      wait_and_check_crash fuel w =
        Some \<lparr>ended = Return True, sleeps = replicate 30 (1 / 10), force_closed = True\<rparr> \<and>
      sum_list (replicate 30 (1 / 10 :: real)) = 3) \<and>
   (g < 30 \<and> (\<forall>k < g. \<not> launch_seen w k) \<and> launch_seen w g \<and>
    (\<forall>k < n. in_time w k \<and> tick_key w k = None \<and> tick_alive w k) \<and>
    \<not> in_time w n \<longrightarrow>
      wait_and_check_crash (Suc (n + fuel)) w =
        Some \<lparr>ended = Return False, sleeps = replicate g (1 / 10) @ replicate n (nap w),
              force_closed = True\<rparr>) \<and>
   (g < 30 \<and> (\<forall>k < g. \<not> launch_seen w k) \<and> launch_seen w g \<and>
    (\<forall>k < n. in_time w k \<and> tick_key w k = None \<and> tick_alive w k) \<and>
    in_time w n \<and> tick_key w n = None \<and> \<not> tick_alive w n \<longrightarrow>
      wait_and_check_crash (Suc (n + fuel)) w =
        Some \<lparr>ended = Return True, sleeps = replicate g (1 / 10) @ replicate n (nap w),
              force_closed = True\<rparr>)"
proof -
  have a: "(\<forall>k < 30. \<not> launch_seen w k) \<longrightarrow>
      wait_and_check_crash fuel w =
        Some \<lparr>ended = Return True, sleeps = replicate 30 (1 / 10), force_closed = True\<rparr>"
    using grace_none [of 30 "launch_seen w" 0] by (simp add: wait_and_check_crash_def)
  have s: "sum_list (replicate 30 (1 / 10 :: real)) = 3"
    by (simp add: sum_list_replicate)
  have found: "grace (launch_seen w) 0 30 = Some g"
    if "g < 30" "\<forall>k < g. \<not> launch_seen w k" "launch_seen w g"
    using grace_some [of g 30 "launch_seen w" 0] that by simp
  have run: "wait_loop (Suc (n + fuel)) w 0 sl = wait_loop (Suc fuel) w n (sl @ replicate n (nap w))"
    if "\<forall>k < n. in_time w k \<and> tick_key w k = None \<and> tick_alive w k" for sl
    using wait_loop_run [of n w 0 "Suc fuel" sl] that by simp
  from a s found run show ?thesis
    by (simp add: wait_and_check_crash_def)
qed

text \<open>
  Witness for C8: a game that never starts; a game that starts in the third round and
  lives through a wait of one second; a game that starts and is gone in the third round
  of the wait.
\<close>

theorem wait_and_check_crash_outcomes_witness:
  "wait_and_check_crash 0 watch_never =
     Some \<lparr>ended = Return True, sleeps = replicate 30 (1 / 10), force_closed = True\<rparr> \<and>
   \<not> launch_seen watch_alive 0 \<and> \<not> launch_seen watch_alive 1 \<and> launch_seen watch_alive 2 \<and>
   in_time watch_alive 3 \<and> \<not> in_time watch_alive 4 \<and>
   wait_and_check_crash 5 watch_alive =
     Some \<lparr>ended = Return False, sleeps = [1 / 10, 1 / 10, 1 / 4, 1 / 4, 1 / 4, 1 / 4],
           force_closed = True\<rparr> \<and>
   launch_seen watch_dies 2 \<and> tick_alive watch_dies 1 \<and>
   in_time watch_dies 2 \<and> tick_key watch_dies 2 = None \<and> \<not> tick_alive watch_dies 2 \<and>
   wait_and_check_crash 3 watch_dies =
     Some \<lparr>ended = Return True, sleeps = [1 / 10, 1 / 10, 1 / 4, 1 / 4], force_closed = True\<rparr>"
proof -
  have n: "\<forall>k < 30. \<not> launch_seen watch_never k" by (simp add: watch_never_def)
  have a: "(2::nat) < 30" "\<forall>k < 2. \<not> launch_seen watch_alive k" "launch_seen watch_alive 2"
    "\<forall>k < 4. in_time watch_alive k \<and> tick_key watch_alive k = None \<and> tick_alive watch_alive k"
    "\<not> in_time watch_alive 4"
    by (auto simp add: watch_alive_def in_time_def)
  have d: "\<forall>k < 2. \<not> launch_seen watch_dies k" "launch_seen watch_dies 2"
    "\<forall>k < 2. in_time watch_dies k \<and> tick_key watch_dies k = None \<and> tick_alive watch_dies k"
    "in_time watch_dies 2" "tick_key watch_dies 2 = None" "\<not> tick_alive watch_dies 2"
    by (auto simp add: watch_dies_def in_time_def)
  from wait_and_check_crash_outcomes [of watch_never 0 2 0] n
  have r1: "wait_and_check_crash 0 watch_never =
     Some \<lparr>ended = Return True, sleeps = replicate 30 (1 / 10), force_closed = True\<rparr>"
    by blast
  from wait_and_check_crash_outcomes [of watch_alive 0 2 4] a
  have "wait_and_check_crash (Suc (4 + 0)) watch_alive =
     Some \<lparr>ended = Return False, sleeps = replicate 2 (1 / 10) @ replicate 4 (nap watch_alive),
           force_closed = True\<rparr>"
    by blast
  then have r2: "wait_and_check_crash 5 watch_alive =
     Some \<lparr>ended = Return False, sleeps = [1 / 10, 1 / 10, 1 / 4, 1 / 4, 1 / 4, 1 / 4],
           force_closed = True\<rparr>"
    by (simp add: nap_def watch_alive_def numeral_eq_Suc)
  from wait_and_check_crash_outcomes [of watch_dies 0 2 2] d a(1)
  have "wait_and_check_crash (Suc (2 + 0)) watch_dies =
     Some \<lparr>ended = Return True, sleeps = replicate 2 (1 / 10) @ replicate 2 (nap watch_dies),
           force_closed = True\<rparr>"
    by blast
  then have r3: "wait_and_check_crash 3 watch_dies =
     Some \<lparr>ended = Return True, sleeps = [1 / 10, 1 / 10, 1 / 4, 1 / 4], force_closed = True\<rparr>"
    by (simp add: nap_def watch_dies_def numeral_eq_Suc)
  have c: "\<not> launch_seen watch_alive 0" "\<not> launch_seen watch_alive 1" "in_time watch_alive 3"
    "tick_alive watch_dies 1"
    by (simp_all add: watch_alive_def watch_dies_def in_time_def)
  from a d c r1 r2 r3 show ?thesis by blast
qed

text \<open>
  Counterexample to C8 as stated: the process ends at 0.98 seconds, before the wait of one
  second is over. The last poll, at 0.95 seconds, has found it, the next reading of the
  clock is past the wait, and the function returns \<^verbatim>\<open>False\<close> (passed) without another poll.
  A process that ends at 0.9 seconds is missed by the poll at 0.95 seconds and counts as
  crashed.
\<close>

theorem late_exit_counts_as_passed:
  "(49 / 50 :: real) <
     start_time (watch_exit (49 / 50)) + of_int (WAIT_SECONDS (watch_exit (49 / 50))) \<and>
   wait_and_check_crash 5 (watch_exit (49 / 50)) =
     Some \<lparr>ended = Return False, sleeps = [1 / 4, 1 / 4, 1 / 4, 1 / 4], force_closed = True\<rparr> \<and>
   wait_and_check_crash 5 (watch_exit (9 / 10)) =
     Some \<lparr>ended = Return True, sleeps = [1 / 4, 1 / 4, 1 / 4], force_closed = True\<rparr>"
proof -
  have g: "grace (launch_seen (watch_exit x)) 0 30 = Some 0" for x
    using grace_some [of 0 30 "launch_seen (watch_exit x)" 0] by (simp add: watch_exit_def)
  have f: "(5::nat) = Suc (Suc (Suc (Suc (Suc 0))))" by simp
  show ?thesis
    unfolding wait_and_check_crash_def g f
    by (simp add: watch_exit_def in_time_def nap_def)
qed

end
